theory Spec2Isabelle
  imports Main "HOL-Library.Product_Lexorder" "HOL-Library.AList" "HOL-Library.Multiset"
begin

unbundle bit_operations_syntax

section \<open>Python's \<open>ipaddress\<close> module, as far as the script uses it\<close>

text \<open>
  The script calls \<open>ipaddress.ip_network\<close>, \<open>ipaddress.collapse_addresses\<close>, the
  ordering of networks and \<open>str\<close> of a network. They are library code; the definitions
  below follow CPython's \<open>Lib/ipaddress.py\<close> function by function. Python integers are
  \<open>int\<close>, a prefix length (always between 0 and 32) is a \<open>nat\<close>. Only IPv4 is modelled:
  a string that only \<open>IPv6Network\<close> would accept is a parse failure here (the feed filter
  drops every string with a colon before parsing, and \<open>IpRanges\<close> of EC2 holds IPv4 only).
\<close>

record ipv4network =
  network_address :: int
  prefixlen :: nat

definition IPV4LENGTH :: nat where
  "IPV4LENGTH = 32"

definition ALL_ONES :: int where
  "ALL_ONES = 2 ^ IPV4LENGTH - 1"

text \<open>\<open>int.bit_length()\<close> of a non-negative integer.\<close>

fun bit_length_nat :: "nat \<Rightarrow> nat" where
  "bit_length_nat n = (if n = 0 then 0 else Suc (bit_length_nat (n div 2)))"

definition bit_length :: "int \<Rightarrow> nat" where
  "bit_length x = bit_length_nat (nat \<bar>x\<bar>)"

definition count_righthand_zero_bits :: "int \<Rightarrow> nat \<Rightarrow> nat" where
  "count_righthand_zero_bits number bits =
     (if number = 0 then bits
      else min bits (bit_length (NOT number AND (number - 1))))"

definition ip_int_from_prefix :: "nat \<Rightarrow> int" where
  "ip_int_from_prefix p = ALL_ONES XOR (drop_bit p ALL_ONES)"

definition netmask :: "ipv4network \<Rightarrow> int" where
  "netmask n = ip_int_from_prefix (prefixlen n)"

definition hostmask :: "ipv4network \<Rightarrow> int" where
  "hostmask n = netmask n XOR ALL_ONES"

definition broadcast_address :: "ipv4network \<Rightarrow> int" where
  "broadcast_address n = network_address n OR hostmask n"

text \<open>
  \<open>IPv4Network((address, prefixlen))\<close>, the constructor from a tuple. Its checks (the
  address is below \<open>2 ** 32\<close>, the prefix length is at most 32, no host bit is set) hold
  at each of the two places the library calls it from, \<open>supernet\<close> and
  \<open>summarize_address_range\<close>.
\<close>

definition IPv4Network_of_tuple :: "int \<times> nat \<Rightarrow> ipv4network" where
  "IPv4Network_of_tuple t = \<lparr>network_address = fst t, prefixlen = snd t\<rparr>"

definition supernet :: "ipv4network \<Rightarrow> ipv4network" where
  "supernet n =
     (if prefixlen n = 0 then n
      else IPv4Network_of_tuple
             (network_address n AND push_bit 1 (netmask n), prefixlen n - 1))"

subsection \<open>Parsing\<close>

text \<open>\<open>str.split(sep)\<close> for a separator of one character.\<close>

fun split_on :: "char \<Rightarrow> string \<Rightarrow> string list" where
  "split_on sep [] = [[]]"
| "split_on sep (c # cs) =
     (if c = sep then [] # split_on sep cs
      else (c # hd (split_on sep cs)) # tl (split_on sep cs))"

definition isdigit :: "char \<Rightarrow> bool" where
  "isdigit c = (c \<in> set ''0123456789'')"

text \<open>\<open>int(s, 10)\<close> on a string of decimal digits.\<close>

definition int_of_digits :: "string \<Rightarrow> int" where
  "int_of_digits s = foldl (\<lambda>acc c. 10 * acc + (of_char c - 48)) 0 s"

definition parse_octet :: "string \<Rightarrow> int option" where
  "parse_octet octet_str =
     (if octet_str = [] then None
      else if \<not> list_all isdigit octet_str then None
      else if length octet_str > 3 then None
      else if octet_str \<noteq> ''0'' \<and> hd octet_str = CHR ''0'' then None
      else if int_of_digits octet_str > 255 then None
      else Some (int_of_digits octet_str))"

definition ip_int_from_string :: "string \<Rightarrow> int option" where
  "ip_int_from_string ip_str =
     (if ip_str = [] then None
      else let octets = split_on CHR ''.'' ip_str in
        if length octets \<noteq> 4 then None
        else case those (map parse_octet octets) of
          None \<Rightarrow> None
        | Some bs \<Rightarrow> Some (foldl (\<lambda>acc b. acc * 256 + b) 0 bs))"

definition IPv4Address :: "string \<Rightarrow> int option" where
  "IPv4Address addr_str =
     (if CHR ''/'' \<in> set addr_str then None else ip_int_from_string addr_str)"

definition prefix_from_prefix_string :: "string \<Rightarrow> nat option" where
  "prefix_from_prefix_string prefixlen_str =
     (if prefixlen_str = [] \<or> \<not> list_all isdigit prefixlen_str then None
      else if \<not> int_of_digits prefixlen_str \<le> int IPV4LENGTH then None
      else Some (nat (int_of_digits prefixlen_str)))"

definition prefix_from_ip_int :: "int \<Rightarrow> nat option" where
  "prefix_from_ip_int ip_int =
     (let trailing_zeroes = count_righthand_zero_bits ip_int IPV4LENGTH;
          p = IPV4LENGTH - trailing_zeroes;
          leading_ones = drop_bit trailing_zeroes ip_int;
          all_ones = push_bit p 1 - 1
      in if leading_ones \<noteq> all_ones then None else Some p)"

definition prefix_from_ip_string :: "string \<Rightarrow> nat option" where
  "prefix_from_ip_string ip_str =
     (case ip_int_from_string ip_str of
        None \<Rightarrow> None
      | Some ip_int \<Rightarrow>
          (case prefix_from_ip_int ip_int of
             Some p \<Rightarrow> Some p
           | None \<Rightarrow> prefix_from_ip_int (ip_int XOR ALL_ONES)))"

definition make_netmask :: "string \<Rightarrow> nat option" where
  "make_netmask arg =
     (case prefix_from_prefix_string arg of
        Some p \<Rightarrow> Some p
      | None \<Rightarrow> prefix_from_ip_string arg)"

text \<open>
  \<open>IPv4Network(address)\<close> with \<open>strict=True\<close>, on a string. \<open>None\<close> stands for each of
  \<open>AddressValueError\<close>, \<open>NetmaskValueError\<close> and the \<open>ValueError\<close> for host bits.
\<close>

definition IPv4Network :: "string \<Rightarrow> ipv4network option" where
  "IPv4Network address =
     (let parts = split_on CHR ''/'' address in
      if length parts > 2 then None
      else case IPv4Address (hd parts) of
        None \<Rightarrow> None
      | Some packed \<Rightarrow>
          (case (if length parts > 1 then make_netmask (parts ! 1) else Some IPV4LENGTH) of
             None \<Rightarrow> None
           | Some p \<Rightarrow>
               if packed AND ip_int_from_prefix p \<noteq> packed then None
               else Some \<lparr>network_address = packed, prefixlen = p\<rparr>))"

text \<open>
  \<open>ipaddress.ip_network(address)\<close>: every failure of \<open>IPv4Network\<close> ends in a
  \<open>ValueError\<close> (directly, or after \<open>IPv6Network\<close> has refused the string too).
\<close>

definition ip_network :: "string \<Rightarrow> ipv4network option" where
  "ip_network address = IPv4Network address"

subsection \<open>Printing\<close>

fun str_nat :: "nat \<Rightarrow> string" where
  "str_nat n =
     (if n < 10 then [char_of (48 + n)]
      else str_nat (n div 10) @ [char_of (48 + n mod 10)])"

text \<open>\<open>'.'.join(map(str, ip_int.to_bytes(4, 'big')))\<close>\<close>

definition string_from_ip_int :: "int \<Rightarrow> string" where
  "string_from_ip_int ip_int =
     str_nat (nat (ip_int div 2 ^ 24 mod 256)) @ ''.'' @
     str_nat (nat (ip_int div 2 ^ 16 mod 256)) @ ''.'' @
     str_nat (nat (ip_int div 2 ^ 8 mod 256)) @ ''.'' @
     str_nat (nat (ip_int mod 256))"

definition str_network :: "ipv4network \<Rightarrow> string" where
  "str_network n = string_from_ip_int (network_address n) @ ''/'' @ str_nat (prefixlen n)"

subsection \<open>Collapsing\<close>

text \<open>
  \<open>_find_address_range\<close>: the runs of consecutive addresses of a sorted list without
  duplicates. The library calls it on a non-empty list only (\<open>if ips:\<close>).
\<close>

fun find_address_range_from :: "int \<Rightarrow> int \<Rightarrow> int list \<Rightarrow> (int \<times> int) list" where
  "find_address_range_from first_ip last_ip [] = [(first_ip, last_ip)]"
| "find_address_range_from first_ip last_ip (ip # it) =
     (if ip \<noteq> last_ip + 1 then (first_ip, last_ip) # find_address_range_from ip ip it
      else find_address_range_from first_ip ip it)"

definition find_address_range :: "int list \<Rightarrow> (int \<times> int) list" where
  "find_address_range addresses =
     (case addresses of [] \<Rightarrow> [] | a # it \<Rightarrow> find_address_range_from a a it)"

text \<open>
  \<open>summarize_address_range\<close>, the \<open>while first_int <= last_int\<close> loop with its
  \<open>break\<close> at the top of the address space.
\<close>

function summarize_address_range :: "int \<Rightarrow> int \<Rightarrow> ipv4network list" where
  "summarize_address_range first_int last_int =
     (if first_int \<le> last_int then
        (let nbits = min (count_righthand_zero_bits first_int IPV4LENGTH)
                         (bit_length (last_int - first_int + 1) - 1);
             net = IPv4Network_of_tuple (first_int, IPV4LENGTH - nbits)
         in if first_int + push_bit nbits 1 - 1 = ALL_ONES then [net]
            else net # summarize_address_range (first_int + push_bit nbits 1) last_int)
      else [])"
  by pat_completeness auto
termination
  by (relation "measure (\<lambda>(f, l). nat (l + 1 - f))") (auto simp: push_bit_eq_mult)

declare summarize_address_range.simps [simp del]

text \<open>
  \<open>_collapse_addresses_internal\<close>. The dictionary \<open>subnets\<close> is an association list
  with one entry per key, in insertion order; \<open>to_merge\<close> is a stack whose top is the
  head of the list (\<open>pop()\<close> takes the last element of the Python list, \<open>append\<close> puts
  one there).
\<close>

function merge_loop ::
  "ipv4network list \<Rightarrow> (ipv4network \<times> ipv4network) list \<Rightarrow> (ipv4network \<times> ipv4network) list"
where
  "merge_loop [] subnets = subnets"
| "merge_loop (net # to_merge) subnets =
     (case map_of subnets (supernet net) of
        None \<Rightarrow> merge_loop to_merge (AList.update (supernet net) net subnets)
      | Some existing \<Rightarrow>
          if existing \<noteq> net
          then merge_loop (supernet net # to_merge) (AList.delete (supernet net) subnets)
          else merge_loop to_merge subnets)"
  by pat_completeness auto

lemma length_delete_less:
  "map_of al k = Some v \<Longrightarrow> length (AList.delete k al) < length al"
  by (induction al) (auto simp: less_Suc_eq_le length_filter_le AList.delete_eq split: if_splits)

lemma length_update_le: "length (AList.update k v al) \<le> Suc (length al)"
  by (induction al) auto

lemma prefixlen_supernet: "prefixlen (supernet n) = prefixlen n - 1"
  by (simp add: supernet_def IPv4Network_of_tuple_def)

termination merge_loop
proof (relation "measure (\<lambda>(to_merge, subnets).
          (\<Sum>n\<leftarrow>to_merge. 2 * prefixlen n + 2) + length subnets)", goal_cases)
  case 1
  show ?case by simp
next
  case (2 net to_merge subnets)
  have "length (AList.update (supernet net) net subnets) \<le> Suc (length subnets)"
    by (rule length_update_le)
  then show ?case by simp
next
  case (3 net to_merge subnets existing)
  then have "length (AList.delete (supernet net) subnets) < length subnets"
    by (simp add: length_delete_less)
  then show ?case by (simp add: prefixlen_supernet)
next
  case (4 net to_merge subnets existing)
  show ?case by simp
qed

declare merge_loop.simps [simp del]

text \<open>The second loop of \<open>_collapse_addresses_internal\<close>, over the sorted values.\<close>

fun skip_subsumed :: "ipv4network option \<Rightarrow> ipv4network list \<Rightarrow> ipv4network list" where
  "skip_subsumed last_net [] = []"
| "skip_subsumed last_net (net # rest) =
     (case last_net of
        None \<Rightarrow> net # skip_subsumed (Some net) rest
      | Some l \<Rightarrow>
          if broadcast_address l \<ge> broadcast_address net then skip_subsumed last_net rest
          else net # skip_subsumed (Some net) rest)"

text \<open>\<open>_BaseNetwork.__lt__\<close> compares the network address, then the netmask.\<close>

definition network_lt_key :: "ipv4network \<Rightarrow> int \<times> int" where
  "network_lt_key n = (network_address n, netmask n)"

definition collapse_addresses_internal :: "ipv4network list \<Rightarrow> ipv4network list" where
  "collapse_addresses_internal addresses =
     skip_subsumed None
       (sort_key network_lt_key (map snd (merge_loop (rev addresses) [])))"

text \<open>
  \<open>collapse_addresses\<close> on a list of networks: the networks of one address go through
  \<open>sorted(set(ips))\<close>, \<open>_find_address_range\<close> and \<open>summarize_address_range\<close>, and
  the result is put in front of the other networks.
\<close>

definition collapse_addresses :: "ipv4network list \<Rightarrow> ipv4network list" where
  "collapse_addresses addresses =
     (let ips = sort (remdups (map network_address
                  (filter (\<lambda>ip. prefixlen ip = IPV4LENGTH) addresses)));
          nets = filter (\<lambda>ip. prefixlen ip \<noteq> IPV4LENGTH) addresses;
          addrs = concat (map (\<lambda>(first_ip, last_ip). summarize_address_range first_ip last_ip)
                    (find_address_range ips))
      in collapse_addresses_internal (addrs @ nets))"

section \<open>The script\<close>

subsection \<open>Constants and the outside world\<close>

definition AWS_SG_RULE_LIMIT :: nat where
  "AWS_SG_RULE_LIMIT = 60"

definition AWS_SG_RULE_PORT :: int where
  "AWS_SG_RULE_PORT = 443"

definition RULE_DESCRIPTION :: string where
  "RULE_DESCRIPTION = ''Bitbucket CIDR rule added via automation''"

text \<open>
  An entry of the feed is a JSON object read with \<open>item.get(key, default)\<close> and
  \<open>item["cidr"]\<close>: each field may be absent.
\<close>

record feed_item =
  cidr :: "string option"
  product :: "string list option"
  direction :: "string list option"

record feed_data =
  items :: "feed_item list option"

text \<open>
  What \<open>describe_security_groups\<close> returns for the group, as far as the script reads
  it: \<open>perm.get("IpProtocol")\<close>, \<open>perm.get("FromPort")\<close> and the \<open>CidrIp\<close> strings of
  \<open>perm.get("IpRanges", [])\<close>.
\<close>

record sg_permission =
  sg_IpProtocol :: "string option"
  sg_FromPort :: "int option"
  sg_IpRanges :: "string list option"

record security_group =
  IpPermissions :: "sg_permission list option"

text \<open>
  The payload of a mutation request. The script builds \<open>IpRanges\<close> by iterating a
  Python \<open>set\<close>, whose order is unspecified: the field is the set of its entries.
\<close>

record ip_range =
  CidrIp :: string
  Description :: "string option"

record ip_permission =
  IpProtocol :: string
  FromPort :: int
  ToPort :: int
  IpRanges :: "ip_range set"

text \<open>
  The two texts the script posts to Slack, with the number they carry (the security
  group id, the Jenkins URL and the job name are passed through verbatim).
\<close>

datatype slack_message = AlertLimitExceeded nat | UpdatedSecurityGroup nat

datatype slack_response = PostRaises | PostReturns bool

text \<open>
  Everything the run reads from outside: the two environment variables that steer it and
  the answer of each collaborator (\<open>None\<close> or \<open>True\<close> where the call raises).
\<close>

record world =
  DRY_RUN :: bool
  SLACK_BOT_TOKEN :: "string option"
  feed_response :: "feed_data option"
  describe_response :: "security_group option"
  revoke_raises :: bool
  authorize_raises :: bool
  chat_response :: slack_response

datatype exc =
    KeyError string
  | ValueError
  | RequestException
  | ClientError
  | SystemExit "int option"

text \<open>One constructor per \<open>print\<close> of the script.\<close>

datatype log_line =
    LogFetching
  | LogTotalBefore nat
  | LogTotalAfter nat
  | LogReduced nat
  | LogNoReduction
  | LogDesired "string list"
  | LogCurrent "string list"
  | LogNoChangesDetected
  | LogLimitExceeded nat
  | LogChecking
  | LogUpToDate
  | LogRemoving "string set"
  | LogAdding "string set"
  | LogDryRun
  | LogUpdated nat
  | LogTokenNotSet
  | LogSlackSent
  | LogSlackFailed

text \<open>What the run does to the outside, in order.\<close>

datatype event =
    Print log_line
  | FeedGet
  | DescribeSecurityGroups
  | RevokeSecurityGroupIngress "ip_permission list"
  | AuthorizeSecurityGroupIngress "ip_permission list"
  | ChatPostMessage slack_message

text \<open>
  A step of the script yields the events it caused and either the exception that ended
  it or its return value.
\<close>

type_synonym 'a io = "event list \<times> (exc + 'a)"

definition return_io :: "'a \<Rightarrow> 'a io" where
  "return_io x = ([], Inr x)"

definition raise_io :: "exc \<Rightarrow> 'a io" where
  "raise_io e = ([], Inl e)"

definition emit :: "event \<Rightarrow> unit io" where
  "emit e = ([e], Inr ())"

definition bind_io :: "'a io \<Rightarrow> ('a \<Rightarrow> 'b io) \<Rightarrow> 'b io" where
  "bind_io m f =
     (case snd m of
        Inl e \<Rightarrow> (fst m, Inl e)
      | Inr x \<Rightarrow> (fst m @ fst (f x), snd (f x)))"

definition then_io :: "unit io \<Rightarrow> 'b io \<Rightarrow> 'b io" where
  "then_io m k = bind_io m (\<lambda>_. k)"

text \<open>
  The exit status of the process: 0 when \<open>main\<close> returns and for \<open>sys.exit()\<close>, the
  argument of \<open>sys.exit(n)\<close>, 1 for an exception nobody catches.
\<close>

fun exit_status :: "exc + unit \<Rightarrow> int" where
  "exit_status (Inr _) = 0"
| "exit_status (Inl (SystemExit None)) = 0"
| "exit_status (Inl (SystemExit (Some n))) = n"
| "exit_status (Inl _) = 1"

subsection \<open>\<open>fetch_ip_ranges\<close>\<close>

definition fetch_ip_ranges :: "world \<Rightarrow> feed_data io" where
  "fetch_ip_ranges w =
     bind_io (emit FeedGet) (\<lambda>_.
       case feed_response w of
         None \<Rightarrow> raise_io RequestException
       | Some data \<Rightarrow> return_io data)"

subsection \<open>\<open>extract_bitbucket_egress_ipv4\<close>\<close>

text \<open>The condition of the list comprehension.\<close>

definition feed_condition :: "feed_item \<Rightarrow> bool" where
  "feed_condition item =
     (''bitbucket'' \<in> set (case product item of None \<Rightarrow> [] | Some ts \<Rightarrow> ts)
      \<and> ''egress'' \<in> set (case direction item of None \<Rightarrow> [] | Some ts \<Rightarrow> ts)
      \<and> CHR '':'' \<notin> set (case cidr item of None \<Rightarrow> [] | Some c \<Rightarrow> c))"

text \<open>
  The list comprehension: \<open>item["cidr"]\<close> of every entry that meets the condition, and
  a \<open>KeyError\<close> at the first such entry that has no \<open>cidr\<close>.
\<close>

fun feed_cidrs :: "feed_item list \<Rightarrow> exc + string list" where
  "feed_cidrs [] = Inr []"
| "feed_cidrs (item # rest) =
     (if feed_condition item then
        (case cidr item of
           None \<Rightarrow> Inl (KeyError ''cidr'')
         | Some c \<Rightarrow>
             (case feed_cidrs rest of
                Inl e \<Rightarrow> Inl e
              | Inr cs \<Rightarrow> Inr (c # cs)))
      else feed_cidrs rest)"

text \<open>
  Lines 49 to 51: parse every string (a \<open>ValueError\<close> at the first that fails),
  collapse, sort by \<open>(network_address, prefixlen)\<close> and print.
\<close>

definition address_prefix_key :: "ipv4network \<Rightarrow> int \<times> nat" where
  "address_prefix_key c = (network_address c, prefixlen c)"

definition collapse_cidrs :: "string list \<Rightarrow> exc + string list" where
  "collapse_cidrs cidrs =
     (case those (map ip_network cidrs) of
        None \<Rightarrow> Inl ValueError
      | Some cidr_objs \<Rightarrow>
          Inr (map str_network
                 (sort_key address_prefix_key (collapse_addresses cidr_objs))))"

definition extract_bitbucket_egress_ipv4 :: "feed_data \<Rightarrow> exc + (string list \<times> string list)" where
  "extract_bitbucket_egress_ipv4 data =
     (case feed_cidrs (case items data of None \<Rightarrow> [] | Some its \<Rightarrow> its) of
        Inl e \<Rightarrow> Inl e
      | Inr cidrs \<Rightarrow>
          (case collapse_cidrs cidrs of
             Inl e \<Rightarrow> Inl e
           | Inr collapsed \<Rightarrow> Inr (cidrs, collapsed)))"

subsection \<open>\<open>get_sg_ingress_rules\<close>\<close>

definition sg_rules :: "security_group \<Rightarrow> string list" where
  "sg_rules ec2_sg =
     concat (map (\<lambda>perm.
         if sg_IpProtocol perm = Some ''tcp'' \<and> sg_FromPort perm = Some AWS_SG_RULE_PORT
         then (case sg_IpRanges perm of None \<Rightarrow> [] | Some rs \<Rightarrow> rs)
         else [])
       (case IpPermissions ec2_sg of None \<Rightarrow> [] | Some perms \<Rightarrow> perms))"

text \<open>
  \<open>sorted(rules, key=ipaddress.ip_network)\<close> computes the key of every rule first (a
  \<open>ValueError\<close> when one does not parse) and is stable.
\<close>

definition get_sg_ingress_rules :: "world \<Rightarrow> string list io" where
  "get_sg_ingress_rules w =
     bind_io (emit DescribeSecurityGroups) (\<lambda>_.
       case describe_response w of
         None \<Rightarrow> raise_io ClientError
       | Some ec2_sg \<Rightarrow>
           (case those (map ip_network (sg_rules ec2_sg)) of
              None \<Rightarrow> raise_io ValueError
            | Some _ \<Rightarrow>
                return_io (sort_key (\<lambda>c. network_lt_key (the (ip_network c)))
                             (sg_rules ec2_sg))))"

subsection \<open>\<open>replace_sg_ingress_rules\<close>\<close>

definition to_add :: "string list \<Rightarrow> string list \<Rightarrow> string set" where
  "to_add after_cidrs current_cidrs = set after_cidrs - set current_cidrs"

definition to_remove :: "string list \<Rightarrow> string list \<Rightarrow> string set" where
  "to_remove after_cidrs current_cidrs = set current_cidrs - set after_cidrs"

definition revoke_payload :: "string set \<Rightarrow> ip_permission list" where
  "revoke_payload cs =
     [\<lparr>IpProtocol = ''tcp'', FromPort = AWS_SG_RULE_PORT, ToPort = AWS_SG_RULE_PORT,
       IpRanges = (\<lambda>c. \<lparr>CidrIp = c, Description = None\<rparr>) ` cs\<rparr>]"

definition auth_payload :: "string set \<Rightarrow> ip_permission list" where
  "auth_payload cs =
     [\<lparr>IpProtocol = ''tcp'', FromPort = AWS_SG_RULE_PORT, ToPort = AWS_SG_RULE_PORT,
       IpRanges = (\<lambda>c. \<lparr>CidrIp = c, Description = Some RULE_DESCRIPTION\<rparr>) ` cs\<rparr>]"

definition revoke_security_group_ingress :: "world \<Rightarrow> ip_permission list \<Rightarrow> unit io" where
  "revoke_security_group_ingress w payload =
     then_io (emit (RevokeSecurityGroupIngress payload))
       (if revoke_raises w then raise_io ClientError else return_io ())"

definition authorize_security_group_ingress :: "world \<Rightarrow> ip_permission list \<Rightarrow> unit io" where
  "authorize_security_group_ingress w payload =
     then_io (emit (AuthorizeSecurityGroupIngress payload))
       (if authorize_raises w then raise_io ClientError else return_io ())"

definition replace_sg_ingress_rules :: "world \<Rightarrow> string list \<Rightarrow> string list \<Rightarrow> unit io" where
  "replace_sg_ingress_rules w after_cidrs current_cidrs =
     then_io (emit (Print LogChecking))
       (if to_add after_cidrs current_cidrs = {} \<and> to_remove after_cidrs current_cidrs = {}
        then emit (Print LogUpToDate)
        else
          then_io
            (if to_remove after_cidrs current_cidrs \<noteq> {} then
               then_io (emit (Print (LogRemoving (to_remove after_cidrs current_cidrs))))
                 (if \<not> DRY_RUN w
                  then revoke_security_group_ingress w
                         (revoke_payload (to_remove after_cidrs current_cidrs))
                  else return_io ())
             else return_io ())
         (then_io
            (if to_add after_cidrs current_cidrs \<noteq> {} then
               then_io (emit (Print (LogAdding (to_add after_cidrs current_cidrs))))
                 (if \<not> DRY_RUN w
                  then authorize_security_group_ingress w
                         (auth_payload (to_add after_cidrs current_cidrs))
                  else return_io ())
             else return_io ())
            (if DRY_RUN w
             then then_io (emit (Print LogDryRun)) (raise_io (SystemExit None))
             else return_io ())))"

subsection \<open>\<open>send_slack_alert\<close>\<close>

text \<open>\<open>not SLACK_BOT_TOKEN\<close> holds for an unset variable and for an empty one.\<close>

definition token_missing :: "world \<Rightarrow> bool" where
  "token_missing w = (case SLACK_BOT_TOKEN w of None \<Rightarrow> True | Some t \<Rightarrow> t = [])"

definition send_slack_alert :: "world \<Rightarrow> slack_message \<Rightarrow> unit io" where
  "send_slack_alert w message =
     (if token_missing w
      then then_io (emit (Print LogTokenNotSet)) (raise_io (SystemExit (Some 1)))
      else then_io (emit (ChatPostMessage message))
             (case chat_response w of
                PostRaises \<Rightarrow> emit (Print LogSlackFailed)
              | PostReturns ok \<Rightarrow>
                  if \<not> ok then emit (Print LogSlackFailed)
                  else emit (Print LogSlackSent)))"

subsection \<open>\<open>main\<close>\<close>

definition lift_io :: "exc + 'a \<Rightarrow> 'a io" where
  "lift_io r = ([], r)"

text \<open>Lines 154 to 167 of \<open>main\<close>: the report of the two counts and of the ranges.\<close>

definition report_counts :: "string list \<Rightarrow> string list \<Rightarrow> unit io" where
  "report_counts before_cidrs after_cidrs =
     then_io (emit (Print (LogTotalBefore (length before_cidrs))))
    (then_io (emit (Print (LogTotalAfter (length after_cidrs))))
    (then_io (if length before_cidrs > length after_cidrs
              then emit (Print (LogReduced (length before_cidrs - length after_cidrs)))
              else emit (Print LogNoReduction))
       (emit (Print (LogDesired after_cidrs)))))"

text \<open>Lines 175 to 204 of \<open>main\<close>: the decision, once both lists are known.\<close>

definition decide :: "world \<Rightarrow> string list \<Rightarrow> string list \<Rightarrow> unit io" where
  "decide w after_cidrs current_cidrs =
     (if after_cidrs = current_cidrs then emit (Print LogNoChangesDetected)
      else if length after_cidrs > AWS_SG_RULE_LIMIT then
        then_io (emit (Print (LogLimitExceeded (length after_cidrs))))
       (then_io (if \<not> DRY_RUN w
                 then send_slack_alert w (AlertLimitExceeded (length after_cidrs))
                 else return_io ())
          (raise_io (SystemExit (Some 1))))
      else
        then_io (replace_sg_ingress_rules w after_cidrs current_cidrs)
       (then_io (emit (Print (LogUpdated (length after_cidrs))))
          (send_slack_alert w (UpdatedSecurityGroup (length after_cidrs)))))"

definition main :: "world \<Rightarrow> unit io" where
  "main w =
     then_io (emit (Print LogFetching))
    (bind_io (fetch_ip_ranges w) (\<lambda>data.
     bind_io (lift_io (extract_bitbucket_egress_ipv4 data)) (\<lambda>(before_cidrs, after_cidrs).
     then_io (report_counts before_cidrs after_cidrs)
    (bind_io (get_sg_ingress_rules w) (\<lambda>current_cidrs.
     then_io (emit (Print (LogCurrent current_cidrs)))
       (decide w after_cidrs current_cidrs))))))"

text \<open>The observations the claims are about.\<close>

fun is_mutation :: "event \<Rightarrow> bool" where
  "is_mutation (RevokeSecurityGroupIngress _) = True"
| "is_mutation (AuthorizeSecurityGroupIngress _) = True"
| "is_mutation _ = False"

fun is_chat_post :: "event \<Rightarrow> bool" where
  "is_chat_post (ChatPostMessage _) = True"
| "is_chat_post _ = False"

subsection \<open>Concrete worlds\<close>

text \<open>
  A feed of four entries, two of them Bitbucket egress IPv4 ranges that collapse into
  \<open>10.0.0.0/23\<close>, and a security group that still lists the two halves on port 443.
\<close>

definition sample_feed :: feed_data where
  "sample_feed = \<lparr>items = Some
     [\<lparr>cidr = Some ''10.0.0.0/24'', product = Some [''bitbucket''],
       direction = Some [''egress'']\<rparr>,
      \<lparr>cidr = Some ''10.0.1.0/24'', product = Some [''bitbucket'', ''jira''],
       direction = Some [''ingress'', ''egress'']\<rparr>,
      \<lparr>cidr = Some ''2401:1d80::/32'', product = Some [''bitbucket''],
       direction = Some [''egress'']\<rparr>,
      \<lparr>cidr = Some ''10.0.4.0/24'', product = Some [''jira''],
       direction = Some [''egress'']\<rparr>]\<rparr>"

definition sample_group :: security_group where
  "sample_group = \<lparr>IpPermissions = Some
     [\<lparr>sg_IpProtocol = Some ''tcp'', sg_FromPort = Some 443,
       sg_IpRanges = Some [''10.0.1.0/24'', ''10.0.0.0/24'']\<rparr>,
      \<lparr>sg_IpProtocol = Some ''tcp'', sg_FromPort = Some 22,
       sg_IpRanges = Some [''0.0.0.0/0'']\<rparr>]\<rparr>"

definition sample_world :: world where
  "sample_world = \<lparr>DRY_RUN = False, SLACK_BOT_TOKEN = Some ''xoxb-1'',
     feed_response = Some sample_feed, describe_response = Some sample_group,
     revoke_raises = False, authorize_raises = False, chat_response = PostReturns True\<rparr>"

text \<open>
  A feed of 61 ranges \<open>10.0.0.0/24\<close>, \<open>10.0.2.0/24\<close>, ..., \<open>10.0.120.0/24\<close>, no two
  of which merge, and a security group without rules.
\<close>

definition wide_cidrs :: "string list" where
  "wide_cidrs = map (\<lambda>i. ''10.0.'' @ str_nat (2 * i) @ ''.0/24'') [0..<61]"

definition wide_feed :: feed_data where
  "wide_feed = \<lparr>items = Some (map (\<lambda>c. \<lparr>cidr = Some c, product = Some [''bitbucket''],
     direction = Some [''egress'']\<rparr>) wide_cidrs)\<rparr>"

definition empty_group :: security_group where
  "empty_group = \<lparr>IpPermissions = Some []\<rparr>"

definition wide_world :: world where
  "wide_world = \<lparr>DRY_RUN = False, SLACK_BOT_TOKEN = Some ''xoxb-1'',
     feed_response = Some wide_feed, describe_response = Some empty_group,
     revoke_raises = False, authorize_raises = False, chat_response = PostReturns True\<rparr>"

text \<open>A feed whose second range has host bits set.\<close>

definition malformed_feed :: feed_data where
  "malformed_feed = \<lparr>items = Some
     [\<lparr>cidr = Some ''10.0.0.0/24'', product = Some [''bitbucket''],
       direction = Some [''egress'']\<rparr>,
      \<lparr>cidr = Some ''10.0.0.1/24'', product = Some [''bitbucket''],
       direction = Some [''egress'']\<rparr>]\<rparr>"

text \<open>
  A feed of one range, and a security group that lists this range in two permissions
  that both start at port 443.
\<close>

definition single_feed :: feed_data where
  "single_feed = \<lparr>items = Some
     [\<lparr>cidr = Some ''10.0.0.0/24'', product = Some [''bitbucket''],
       direction = Some [''egress'']\<rparr>]\<rparr>"

definition doubled_group :: security_group where
  "doubled_group = \<lparr>IpPermissions = Some
     [\<lparr>sg_IpProtocol = Some ''tcp'', sg_FromPort = Some 443,
       sg_IpRanges = Some [''10.0.0.0/24'']\<rparr>,
      \<lparr>sg_IpProtocol = Some ''tcp'', sg_FromPort = Some 443,
       sg_IpRanges = Some [''10.0.0.0/24'']\<rparr>]\<rparr>"

definition doubled_world :: world where
  "doubled_world = \<lparr>DRY_RUN = False, SLACK_BOT_TOKEN = Some ''xoxb-1'',
     feed_response = Some single_feed, describe_response = Some doubled_group,
     revoke_raises = False, authorize_raises = False, chat_response = PostReturns True\<rparr>"

subsection \<open>Notions for the collapse\<close>

text \<open>
  The following notions are not code: they state what the collapse computes. A network
  is valid when its address is a 32-bit number without host bits; \<open>inside n m\<close> says
  that \<open>n\<close> is \<open>m\<close> or one of the networks \<open>m\<close> is split into; \<open>merged I\<close> is the
  closure of \<open>I\<close> under joining two different networks that have the same supernet;
  \<open>merge_invariant\<close> is the invariant of the first loop of
  \<open>_collapse_addresses_internal\<close>.
\<close>

definition block_size :: "ipv4network \<Rightarrow> int" where
  "block_size n = 2 ^ (32 - prefixlen n)"

definition valid_network :: "ipv4network \<Rightarrow> bool" where
  "valid_network n \<longleftrightarrow>
     0 \<le> network_address n \<and> network_address n < 2 ^ 32 \<and> prefixlen n \<le> 32
     \<and> network_address n mod block_size n = 0"

definition inside :: "ipv4network \<Rightarrow> ipv4network \<Rightarrow> bool" where
  "inside n m \<longleftrightarrow>
     prefixlen m \<le> prefixlen n
     \<and> network_address m = network_address n - network_address n mod block_size m"

inductive_set merged :: "ipv4network set \<Rightarrow> ipv4network set" for I :: "ipv4network set" where
  base: "n \<in> I \<Longrightarrow> n \<in> merged I"
| join: "a \<in> merged I \<Longrightarrow> b \<in> merged I \<Longrightarrow> a \<noteq> b \<Longrightarrow> supernet a = supernet b
         \<Longrightarrow> supernet a \<in> merged I"

definition maximal_of :: "ipv4network set \<Rightarrow> ipv4network set" where
  "maximal_of M = {x \<in> M. \<forall>y \<in> M. inside x y \<longrightarrow> y = x}"

definition merge_invariant ::
  "ipv4network set \<Rightarrow> ipv4network list \<Rightarrow> (ipv4network \<times> ipv4network) list \<Rightarrow> bool" where
  "merge_invariant I to_merge subnets \<longleftrightarrow>
     set to_merge \<union> snd ` set subnets \<subseteq> merged I
     \<and> (\<forall>kv \<in> set subnets. fst kv = supernet (snd kv))
     \<and> distinct (map fst subnets)
     \<and> (\<forall>i \<in> I. \<exists>v \<in> set to_merge \<union> snd ` set subnets. inside i v)"

section \<open>Properties\<close>

subsection \<open>Sequencing\<close>

lemma bind_io_Inl [simp]: "bind_io (es, Inl e) f = (es, Inl e)"
  by (simp add: bind_io_def)

lemma bind_io_Inr [simp]: "bind_io (es, Inr x) f = (es @ fst (f x), snd (f x))"
  by (simp add: bind_io_def)

lemma fst_bind_io:
  "fst (bind_io m f) = (case snd m of Inl e \<Rightarrow> fst m | Inr x \<Rightarrow> fst m @ fst (f x))"
  by (simp add: bind_io_def split: sum.splits)

lemma snd_bind_io:
  "snd (bind_io m f) = (case snd m of Inl e \<Rightarrow> Inl e | Inr x \<Rightarrow> snd (f x))"
  by (simp add: bind_io_def split: sum.splits)

lemmas io_defs = then_io_def emit_def return_io_def raise_io_def lift_io_def

lemma those_map_None: "those (map f xs) = None \<longleftrightarrow> (\<exists>x\<in>set xs. f x = None)"
  by (induction xs) (auto split: option.splits)

subsection \<open>The steps of the run\<close>

lemma replace_mutations:
  "filter is_mutation (fst (replace_sg_ingress_rules w a c)) =
     (if DRY_RUN w then []
      else (if to_remove a c = {} then []
            else [RevokeSecurityGroupIngress (revoke_payload (to_remove a c))]) @
           (if to_add a c = {} \<or> (to_remove a c \<noteq> {} \<and> revoke_raises w) then []
            else [AuthorizeSecurityGroupIngress (auth_payload (to_add a c))]))"
  by (simp add: replace_sg_ingress_rules_def revoke_security_group_ingress_def
      authorize_security_group_ingress_def io_defs)

lemma replace_posts: "filter is_chat_post (fst (replace_sg_ingress_rules w a c)) = []"
  by (simp add: replace_sg_ingress_rules_def revoke_security_group_ingress_def
      authorize_security_group_ingress_def io_defs)

lemma snd_replace:
  "snd (replace_sg_ingress_rules w a c) =
     (if to_add a c = {} \<and> to_remove a c = {} then Inr ()
      else if DRY_RUN w then Inl (SystemExit None)
      else if to_remove a c \<noteq> {} \<and> revoke_raises w then Inl ClientError
      else if to_add a c \<noteq> {} \<and> authorize_raises w then Inl ClientError
      else Inr ())"
  by (simp add: replace_sg_ingress_rules_def revoke_security_group_ingress_def
      authorize_security_group_ingress_def io_defs)

lemma send_slack_mutations: "filter is_mutation (fst (send_slack_alert w m)) = []"
  by (simp add: send_slack_alert_def io_defs split: slack_response.splits)

lemma snd_send_slack:
  "snd (send_slack_alert w m) = (if token_missing w then Inl (SystemExit (Some 1)) else Inr ())"
  by (simp add: send_slack_alert_def io_defs split: slack_response.splits)

lemma send_slack_posts:
  "filter is_chat_post (fst (send_slack_alert w m)) =
     (if token_missing w then [] else [ChatPostMessage m])"
  by (simp add: send_slack_alert_def io_defs split: slack_response.splits)

lemma feed_cidrs_filter:
  assumes "\<forall>item \<in> set its. feed_condition item \<longrightarrow> cidr item \<noteq> None"
  shows "feed_cidrs its = Inr (map (the \<circ> cidr) (filter feed_condition its))"
  using assms by (induction its) auto

lemma get_sg_events: "fst (get_sg_ingress_rules w) = [DescribeSecurityGroups]"
  by (simp add: get_sg_ingress_rules_def io_defs split: option.splits)

lemma report_counts_eq:
  "report_counts b a =
     ([Print (LogTotalBefore (length b)), Print (LogTotalAfter (length a)),
       Print (if length b > length a then LogReduced (length b - length a) else LogNoReduction),
       Print (LogDesired a)], Inr ())"
  by (simp add: report_counts_def io_defs)

lemma decide_no_change: "decide w a a = ([Print LogNoChangesDetected], Inr ())"
  by (simp add: decide_def io_defs)

lemma decide_mutations:
  "filter is_mutation (fst (decide w a c)) =
     (if a = c \<or> length a > AWS_SG_RULE_LIMIT then []
      else filter is_mutation (fst (replace_sg_ingress_rules w a c)))"
  by (simp add: decide_def io_defs fst_bind_io send_slack_mutations split: sum.splits)

lemma decide_posts:
  "filter is_chat_post (fst (decide w a c)) =
     (if a = c then []
      else if length a > AWS_SG_RULE_LIMIT then
        (if DRY_RUN w \<or> token_missing w then []
         else [ChatPostMessage (AlertLimitExceeded (length a))])
      else if snd (replace_sg_ingress_rules w a c) \<noteq> Inr () \<or> token_missing w then []
      else [ChatPostMessage (UpdatedSecurityGroup (length a))])"
  by (auto simp: decide_def io_defs fst_bind_io snd_bind_io send_slack_posts snd_send_slack
      replace_posts split: sum.splits)

lemma snd_decide:
  "snd (decide w a c) =
     (if a = c then Inr ()
      else if length a > AWS_SG_RULE_LIMIT then Inl (SystemExit (Some 1))
      else (case snd (replace_sg_ingress_rules w a c) of
              Inl e \<Rightarrow> Inl e
            | Inr _ \<Rightarrow> if token_missing w then Inl (SystemExit (Some 1)) else Inr ()))"
  by (auto simp: decide_def io_defs snd_bind_io snd_send_slack split: sum.splits)

lemma main_reaches_decide:
  assumes "feed_response w = Some data"
    and "extract_bitbucket_egress_ipv4 data = Inr (before_cidrs, after_cidrs)"
    and "snd (get_sg_ingress_rules w) = Inr current_cidrs"
  shows "main w =
     ([Print LogFetching, FeedGet] @ fst (report_counts before_cidrs after_cidrs) @
      [DescribeSecurityGroups, Print (LogCurrent current_cidrs)] @
      fst (decide w after_cidrs current_cidrs),
      snd (decide w after_cidrs current_cidrs))"
proof -
  have g: "get_sg_ingress_rules w = ([DescribeSecurityGroups], Inr current_cidrs)"
    using assms(3) get_sg_events [of w] by (cases "get_sg_ingress_rules w") simp
  show ?thesis
    by (simp add: main_def fetch_ip_ranges_def assms(1,2) g report_counts_eq io_defs)
qed

lemma main_stops_at_fetch:
  assumes "feed_response w = None"
  shows "main w = ([Print LogFetching, FeedGet], Inl RequestException)"
  by (simp add: main_def fetch_ip_ranges_def assms io_defs)

lemma main_stops_at_extract:
  assumes "feed_response w = Some data"
    and "extract_bitbucket_egress_ipv4 data = Inl e"
  shows "main w = ([Print LogFetching, FeedGet], Inl e)"
  by (simp add: main_def fetch_ip_ranges_def assms io_defs)

lemma main_stops_at_describe:
  assumes "feed_response w = Some data"
    and "extract_bitbucket_egress_ipv4 data = Inr (before_cidrs, after_cidrs)"
    and "snd (get_sg_ingress_rules w) = Inl e"
  shows "main w =
     ([Print LogFetching, FeedGet] @ fst (report_counts before_cidrs after_cidrs) @
      [DescribeSecurityGroups], Inl e)"
proof -
  have g: "get_sg_ingress_rules w = ([DescribeSecurityGroups], Inl e)"
    using assms(3) get_sg_events [of w] by (cases "get_sg_ingress_rules w") simp
  show ?thesis
    by (simp add: main_def fetch_ip_ranges_def assms(1,2) g report_counts_eq io_defs)
qed

text \<open>The run, case by case: where it stops, or what the decision makes of it.\<close>

lemma main_cases:
  obtains (at_fetch) "main w = ([Print LogFetching, FeedGet], Inl RequestException)"
  | (at_extract) e where "main w = ([Print LogFetching, FeedGet], Inl e)"
  | (at_describe) b a e where
      "main w = ([Print LogFetching, FeedGet] @ fst (report_counts b a) @
                 [DescribeSecurityGroups], Inl e)"
  | (at_decide) b a c where
      "main w = ([Print LogFetching, FeedGet] @ fst (report_counts b a) @
                 [DescribeSecurityGroups, Print (LogCurrent c)] @ fst (decide w a c),
                 snd (decide w a c))"
proof (cases "feed_response w")
  case None
  then show ?thesis using at_fetch main_stops_at_fetch by blast
next
  case (Some data)
  show ?thesis
  proof (cases "extract_bitbucket_egress_ipv4 data")
    case (Inl e)
    then show ?thesis using at_extract main_stops_at_extract [OF Some] by blast
  next
    case (Inr ba)
    then obtain b a where ba: "extract_bitbucket_egress_ipv4 data = Inr (b, a)"
      by (cases ba) simp
    show ?thesis
    proof (cases "snd (get_sg_ingress_rules w)")
      case (Inl e)
      then show ?thesis using at_describe main_stops_at_describe [OF Some ba] by blast
    next
      case (Inr c)
      then show ?thesis using at_decide main_reaches_decide [OF Some ba] by blast
    qed
  qed
qed

lemma main_mutations_cases:
  "filter is_mutation (fst (main w)) = [] \<or>
   (\<exists>a c. filter is_mutation (fst (main w)) =
           filter is_mutation (fst (replace_sg_ingress_rules w a c)))"
proof (cases w rule: main_cases)
  case (at_decide b a c)
  then show ?thesis
    by (auto simp: report_counts_eq decide_mutations)
qed (simp_all add: report_counts_eq)

subsection \<open>Runs of the concrete worlds\<close>

lemma sample_extract:
  "extract_bitbucket_egress_ipv4 sample_feed =
     Inr ([''10.0.0.0/24'', ''10.0.1.0/24''], [''10.0.0.0/23''])"
  by code_simp

lemma snd_get_sg:
  assumes "describe_response w = Some g"
    and "those (map ip_network (sg_rules g)) \<noteq> None"
  shows "snd (get_sg_ingress_rules w) =
     Inr (sort_key (\<lambda>c. network_lt_key (the (ip_network c))) (sg_rules g))"
  using assms by (auto simp: get_sg_ingress_rules_def io_defs split: option.splits)

lemma sample_rules:
  assumes "describe_response w = Some sample_group"
  shows "snd (get_sg_ingress_rules w) = Inr [''10.0.0.0/24'', ''10.0.1.0/24'']"
proof -
  have p: "those (map ip_network (sg_rules sample_group)) \<noteq> None"
    by code_simp
  have s: "sort_key (\<lambda>c. network_lt_key (the (ip_network c))) (sg_rules sample_group)
      = [''10.0.0.0/24'', ''10.0.1.0/24'']"
    by code_simp
  show ?thesis
    using snd_get_sg [OF assms p] by (simp only: s)
qed

lemma sample_diff:
  "to_remove [''10.0.0.0/23''] [''10.0.0.0/24'', ''10.0.1.0/24''] = {''10.0.0.0/24'', ''10.0.1.0/24''}"
  "to_add [''10.0.0.0/23''] [''10.0.0.0/24'', ''10.0.1.0/24''] = {''10.0.0.0/23''}"
  by (auto simp: to_remove_def to_add_def)


lemma length_wide_cidrs: "length wide_cidrs = 61"
  by (simp add: wide_cidrs_def)

lemma empty_rules:
  "describe_response w = Some empty_group \<Longrightarrow> snd (get_sg_ingress_rules w) = Inr []"
  by (simp add: get_sg_ingress_rules_def io_defs empty_group_def sg_rules_def)


lemma doubled_extract:
  "extract_bitbucket_egress_ipv4 single_feed = Inr ([''10.0.0.0/24''], [''10.0.0.0/24''])"
  by code_simp

lemma doubled_rules:
  assumes "describe_response w = Some doubled_group"
  shows "snd (get_sg_ingress_rules w) = Inr [''10.0.0.0/24'', ''10.0.0.0/24'']"
proof -
  have p: "those (map ip_network (sg_rules doubled_group)) \<noteq> None"
    by code_simp
  have s: "sort_key (\<lambda>c. network_lt_key (the (ip_network c))) (sg_rules doubled_group)
      = [''10.0.0.0/24'', ''10.0.0.0/24'']"
    by code_simp
  show ?thesis
    using snd_get_sg [OF assms p] by (simp only: s)
qed

lemma malformed_cidrs:
  "feed_cidrs (case items malformed_feed of None \<Rightarrow> [] | Some its \<Rightarrow> its) =
     Inr [''10.0.0.0/24'', ''10.0.0.1/24'']"
  by code_simp

lemma host_bits_refused: "ip_network ''10.0.0.1/24'' = None"
  by code_simp

lemma sample_decide_events:
  "fst (decide sample_world [''10.0.0.0/23''] [''10.0.0.0/24'', ''10.0.1.0/24'']) =
     [Print LogChecking,
      Print (LogRemoving {''10.0.0.0/24'', ''10.0.1.0/24''}),
      RevokeSecurityGroupIngress (revoke_payload {''10.0.0.0/24'', ''10.0.1.0/24''}),
      Print (LogAdding {''10.0.0.0/23''}),
      AuthorizeSecurityGroupIngress (auth_payload {''10.0.0.0/23''}),
      Print (LogUpdated 1), ChatPostMessage (UpdatedSecurityGroup 1), Print LogSlackSent]"
  by (simp add: decide_def replace_sg_ingress_rules_def sample_diff sample_world_def
      AWS_SG_RULE_LIMIT_def revoke_security_group_ingress_def
      authorize_security_group_ingress_def send_slack_alert_def token_missing_def io_defs)

lemma sample_main:
  "main sample_world =
     ([Print LogFetching, FeedGet] @
      fst (report_counts [''10.0.0.0/24'', ''10.0.1.0/24''] [''10.0.0.0/23'']) @
      [DescribeSecurityGroups, Print (LogCurrent [''10.0.0.0/24'', ''10.0.1.0/24''])] @
      fst (decide sample_world [''10.0.0.0/23''] [''10.0.0.0/24'', ''10.0.1.0/24'']),
      snd (decide sample_world [''10.0.0.0/23''] [''10.0.0.0/24'', ''10.0.1.0/24'']))"
  by (rule main_reaches_decide [OF _ sample_extract sample_rules])
     (simp_all add: sample_world_def)

lemma wide_extract: "extract_bitbucket_egress_ipv4 wide_feed = Inr (wide_cidrs, wide_cidrs)"
  by code_simp

lemma snd_main:
  "snd (main w) =
     (case feed_response w of
        None \<Rightarrow> Inl RequestException
      | Some data \<Rightarrow>
          (case extract_bitbucket_egress_ipv4 data of
             Inl e \<Rightarrow> Inl e
           | Inr (b, a) \<Rightarrow>
               (case snd (get_sg_ingress_rules w) of
                  Inl e \<Rightarrow> Inl e
                | Inr c \<Rightarrow> snd (decide w a c))))"
  by (auto simp: main_stops_at_fetch main_stops_at_extract main_stops_at_describe
      main_reaches_decide split: option.splits sum.splits)

lemma get_sg_chat_response [simp]:
  "get_sg_ingress_rules (w\<lparr>chat_response := r\<rparr>) = get_sg_ingress_rules w"
  by (simp add: get_sg_ingress_rules_def)

lemma replace_chat_response [simp]:
  "replace_sg_ingress_rules (w\<lparr>chat_response := r\<rparr>) a c = replace_sg_ingress_rules w a c"
  by (simp add: replace_sg_ingress_rules_def revoke_security_group_ingress_def
      authorize_security_group_ingress_def)

lemma token_missing_chat_response [simp]:
  "token_missing (w\<lparr>chat_response := r\<rparr>) = token_missing w"
  by (simp add: token_missing_def)

subsection \<open>Bits and blocks\<close>

lemma or_mask_aligned:
  fixes a :: int
  assumes "a mod 2 ^ k = 0"
  shows "a OR mask k = a + mask k"
proof -
  have "a AND mask k = 0"
    using assms by (simp flip: take_bit_eq_mask add: take_bit_eq_mod)
  then show ?thesis
    by (simp add: disjunctive_add_eq_or)
qed

lemma and_not_mask_eq:
  fixes a :: int
  shows "a AND NOT (mask k) = a - a mod 2 ^ k"
proof -
  have "push_bit k (drop_bit k a) = a AND NOT (mask k)"
    by (auto simp: bit_eq_iff bit_simps)
  moreover have "push_bit k (drop_bit k a) + take_bit k a = a"
    by (rule bits_ident)
  ultimately show ?thesis
    by (simp add: take_bit_eq_mod algebra_simps)
qed

lemma shifted_netmask:
  assumes "p \<le> 32"
  shows "push_bit 1 (2 ^ 32 - 2 ^ (32 - p) :: int) = mask 33 AND NOT (mask (33 - p))"
proof -
  have s: "33 - p = Suc (32 - p)" and t: "p + (32 - p) = 32"
    using assms by simp_all
  have "push_bit 1 (2 ^ 32 - 2 ^ (32 - p) :: int) = 2 ^ 33 - 2 ^ (33 - p)"
    by (simp add: push_bit_eq_mult s)
  also have "\<dots> = push_bit (33 - p) (mask p)"
    by (simp add: push_bit_eq_mult mask_eq_exp_minus_1 algebra_simps s t flip: power_add)
  also have "\<dots> = mask (p + (33 - p)) AND NOT (mask (33 - p))"
    by (rule push_bit_mask_eq)
  finally show ?thesis using assms by simp
qed

lemma block_size_pos [simp]: "0 < block_size n"
  by (simp add: block_size_def)

lemma block_size_dvd: "prefixlen m \<le> prefixlen n \<Longrightarrow> block_size n dvd block_size m"
  by (simp add: block_size_def le_imp_power_dvd)

lemma block_size_mono: "prefixlen m \<le> prefixlen n \<Longrightarrow> block_size n \<le> block_size m"
  by (simp add: block_size_def)

lemma block_size_strict: "prefixlen m < prefixlen n \<Longrightarrow> prefixlen n \<le> 32 \<Longrightarrow> block_size n < block_size m"
  by (simp add: block_size_def)

lemma ip_int_from_prefix_all:
  "list_all (\<lambda>p. ip_int_from_prefix p = 2 ^ 32 - 2 ^ (32 - p)) [0..<33]"
  by code_simp

lemma ip_int_from_prefix_eq:
  "p \<le> 32 \<Longrightarrow> ip_int_from_prefix p = 2 ^ 32 - 2 ^ (32 - p)"
  using ip_int_from_prefix_all by (simp add: list_all_iff)

lemma netmask_eq: "prefixlen n \<le> 32 \<Longrightarrow> netmask n = 2 ^ 32 - block_size n"
  by (simp add: netmask_def ip_int_from_prefix_eq block_size_def)

lemma hostmask_all:
  "list_all (\<lambda>p. ip_int_from_prefix p XOR ALL_ONES = mask (32 - p)) [0..<33]"
  by code_simp

lemma hostmask_eq: "prefixlen n \<le> 32 \<Longrightarrow> hostmask n = mask (32 - prefixlen n)"
  using hostmask_all by (simp add: list_all_iff hostmask_def netmask_def)

lemma broadcast_address_eq:
  assumes "valid_network n"
  shows "broadcast_address n = network_address n + block_size n - 1"
proof -
  have "network_address n OR mask (32 - prefixlen n)
      = network_address n + mask (32 - prefixlen n)"
    using assms by (intro or_mask_aligned) (simp add: valid_network_def block_size_def)
  then show ?thesis
    using assms
    by (simp add: broadcast_address_def hostmask_eq valid_network_def mask_eq_exp_minus_1
        block_size_def)
qed

lemma supernet_eq:
  assumes "valid_network n" and "0 < prefixlen n"
  shows "supernet n = \<lparr>network_address = network_address n - network_address n mod (2 * block_size n),
                       prefixlen = prefixlen n - 1\<rparr>"
proof -
  let ?a = "network_address n" and ?p = "prefixlen n"
  have p: "?p \<le> 32" and a: "0 \<le> ?a" "?a < 2 ^ 32"
    using assms(1) by (simp_all add: valid_network_def)
  have s: "33 - ?p = Suc (32 - ?p)"
    using p by simp
  have a33: "?a AND mask 33 = ?a"
  proof -
    have "?a < 2 ^ 33" using a(2) by simp
    then show ?thesis
      using a(1) by (simp flip: take_bit_eq_mask add: take_bit_int_eq_self)
  qed
  have "?a AND push_bit 1 (netmask n) = ?a AND (mask 33 AND NOT (mask (33 - ?p)))"
    using p by (simp only: netmask_def ip_int_from_prefix_eq shifted_netmask)
  also have "\<dots> = ?a AND NOT (mask (33 - ?p))"
    by (simp add: a33 flip: and.assoc)
  also have "\<dots> = ?a - ?a mod 2 ^ (33 - ?p)"
    by (rule and_not_mask_eq)
  finally show ?thesis
    using assms(2) by (simp add: supernet_def IPv4Network_of_tuple_def s block_size_def)
qed

subsection \<open>Containment of networks\<close>

lemma floor_floor:
  fixes a :: int
  assumes "k \<le> j"
  shows "(a - a mod 2 ^ k) - (a - a mod 2 ^ k) mod 2 ^ j = a - a mod 2 ^ j"
proof -
  have j: "(2::int) ^ j = 2 ^ k * 2 ^ (j - k)"
    using assms by (simp flip: power_add)
  have "(a - a mod 2 ^ k) div 2 ^ j = a div 2 ^ j"
  proof -
    have "(a - a mod 2 ^ k) div 2 ^ j = (a div 2 ^ k * 2 ^ k) div (2 ^ k * 2 ^ (j - k))"
      by (simp add: j minus_mod_eq_div_mult)
    also have "\<dots> = a div 2 ^ k div 2 ^ (j - k)"
      by (simp add: mult.commute [of "a div 2 ^ k"])
    also have "\<dots> = a div 2 ^ j"
      by (simp add: j zdiv_zmult2_eq)
    finally show ?thesis .
  qed
  then have "(a - a mod 2 ^ k) div 2 ^ j * 2 ^ j = a div 2 ^ j * 2 ^ j"
    by simp
  then show ?thesis
    by (simp only: minus_mod_eq_div_mult)
qed

lemma floor_floor_block:
  assumes "prefixlen m \<le> prefixlen n"
  shows "(a - a mod block_size n) - (a - a mod block_size n) mod block_size m
       = a - a mod block_size m"
  unfolding block_size_def using assms by (intro floor_floor) simp

lemma valid_supernet:
  assumes "valid_network n"
  shows "valid_network (supernet n)"
proof (cases "prefixlen n = 0")
  case True
  then show ?thesis using assms by (simp add: supernet_def)
next
  case False
  then have p: "0 < prefixlen n" by simp
  let ?a = "network_address n"
  have b: "block_size (supernet n) = 2 * block_size n"
  proof -
    have "prefixlen n \<le> 32"
      using assms by (simp add: valid_network_def)
    with p have "32 - (prefixlen n - 1) = Suc (32 - prefixlen n)"
      by arith
    then show ?thesis
      by (simp add: block_size_def prefixlen_supernet)
  qed
  have r: "0 \<le> ?a mod (2 * block_size n)"
    by simp
  have "?a mod (2 * block_size n) \<le> ?a"
    using assms by (intro zmod_le_nonneg_dividend) (simp add: valid_network_def)
  then have 1: "0 \<le> network_address (supernet n)"
    by (simp add: supernet_eq [OF assms p])
  have e: "network_address (supernet n) = ?a - ?a mod (2 * block_size n)"
    by (simp add: supernet_eq [OF assms p])
  have "?a < 2 ^ 32"
    using assms by (simp add: valid_network_def)
  with r e have 2: "network_address (supernet n) < 2 ^ 32"
    by linarith
  have "prefixlen n \<le> 32"
    using assms by (simp add: valid_network_def)
  then have 3: "prefixlen (supernet n) \<le> 32"
    unfolding prefixlen_supernet by arith
  have 4: "network_address (supernet n) mod block_size (supernet n) = 0"
    unfolding b e by (simp add: minus_mod_eq_mult_div)
  show ?thesis
    unfolding valid_network_def using 1 2 3 4 by blast
qed

lemma inside_refl: "valid_network n \<Longrightarrow> inside n n"
  by (simp add: inside_def valid_network_def)

lemma inside_trans:
  assumes "inside n m" and "inside m l"
  shows "inside n l"
proof -
  have "network_address l = network_address m - network_address m mod block_size l"
    using assms(2) by (simp add: inside_def)
  also have "\<dots> = network_address n - network_address n mod block_size l"
    using assms by (simp add: inside_def floor_floor_block)
  finally show ?thesis
    using assms by (simp add: inside_def)
qed

lemma inside_antisym:
  assumes "inside n m" and "inside m n" and "valid_network n"
  shows "n = m"
proof -
  have e: "prefixlen n = prefixlen m"
    using assms by (simp add: inside_def)
  then have "block_size m = block_size n"
    by (simp add: block_size_def)
  then have "network_address n mod block_size m = 0"
    using assms(3) by (simp add: valid_network_def)
  then have "network_address m = network_address n"
    using assms(1) by (simp add: inside_def)
  with e show ?thesis by simp
qed

lemma inside_supernet:
  assumes "valid_network n"
  shows "inside n (supernet n)"
proof (cases "prefixlen n = 0")
  case True
  then show ?thesis using assms by (simp add: supernet_def inside_refl)
next
  case False
  then have p: "0 < prefixlen n" by simp
  have "prefixlen n \<le> 32"
    using assms by (simp add: valid_network_def)
  with p have "32 - (prefixlen n - 1) = Suc (32 - prefixlen n)"
    by arith
  then show ?thesis
    by (simp add: inside_def supernet_eq [OF assms p] block_size_def)
qed

lemma supernet_inside:
  assumes "valid_network n" and "inside n m" and "n \<noteq> m"
  shows "inside (supernet n) m"
proof -
  have lt: "prefixlen m < prefixlen n"
  proof (rule ccontr)
    assume "\<not> prefixlen m < prefixlen n"
    then have e: "prefixlen m = prefixlen n"
      using assms(2) by (simp add: inside_def)
    then have "block_size m = block_size n"
      by (simp add: block_size_def)
    then have "network_address n mod block_size m = 0"
      using assms(1) by (simp add: valid_network_def)
    then have "network_address m = network_address n"
      using assms(2) by (simp add: inside_def)
    with e assms(3) show False by simp
  qed
  then have le: "prefixlen m \<le> prefixlen (supernet n)"
    by (simp add: prefixlen_supernet)
  have "inside n (supernet n)"
    by (rule inside_supernet [OF assms(1)])
  then have "network_address (supernet n)
      = network_address n - network_address n mod block_size (supernet n)"
    by (simp add: inside_def)
  then have "network_address (supernet n) - network_address (supernet n) mod block_size m
      = network_address n - network_address n mod block_size m"
    using le by (simp add: floor_floor_block)
  then show ?thesis
    using assms(2) le by (simp add: inside_def)
qed

subsection \<open>The first loop of the collapse\<close>

lemma merged_valid:
  assumes "\<forall>n \<in> I. valid_network n" and "n \<in> merged I"
  shows "valid_network n"
  using assms(2) by induction (simp_all add: assms(1) valid_supernet)

lemma set_update_fresh:
  "k \<notin> fst ` set al \<Longrightarrow> set (AList.update k v al) = insert (k, v) (set al)"
  by (induction al) auto

lemma map_of_None_fresh: "map_of al k = None \<Longrightarrow> k \<notin> fst ` set al"
  by (simp add: map_of_eq_None_iff)

lemma set_delete: "set (AList.delete k al) = {kv \<in> set al. fst kv \<noteq> k}"
  by (auto simp: AList.delete_eq)

lemma merge_invariant_store:
  assumes inv: "merge_invariant I (net # to_merge) subnets"
    and none: "map_of subnets (supernet net) = None"
  shows "merge_invariant I to_merge (AList.update (supernet net) net subnets)"
proof -
  have s: "set (AList.update (supernet net) net subnets) = insert (supernet net, net) (set subnets)"
    by (rule set_update_fresh [OF map_of_None_fresh [OF none]])
  show ?thesis
    using inv unfolding merge_invariant_def s
    by (auto simp: distinct_update)
qed

lemma merge_invariant_same:
  assumes inv: "merge_invariant I (net # to_merge) subnets"
    and some: "map_of subnets (supernet net) = Some net"
  shows "merge_invariant I to_merge subnets"
proof -
  have "(supernet net, net) \<in> set subnets"
    using some by (rule map_of_SomeD)
  then have "net \<in> snd ` set subnets"
    by force
  then have eq: "set (net # to_merge) \<union> snd ` set subnets = set to_merge \<union> snd ` set subnets"
    by auto
  show ?thesis
    using inv unfolding merge_invariant_def eq .
qed

lemma merge_invariant_join:
  assumes inv: "merge_invariant I (net # to_merge) subnets"
    and valid: "\<forall>n \<in> I. valid_network n"
    and some: "map_of subnets (supernet net) = Some existing"
    and ne: "existing \<noteq> net"
  shows "merge_invariant I (supernet net # to_merge) (AList.delete (supernet net) subnets)"
proof -
  let ?k = "supernet net"
  have mem: "(?k, existing) \<in> set subnets"
    using some by (rule map_of_SomeD)
  have d: "distinct (map fst subnets)"
    using inv by (simp add: merge_invariant_def)
  have net: "net \<in> merged I" and ex: "existing \<in> merged I"
    using inv mem unfolding merge_invariant_def by force+
  have key: "supernet existing = ?k"
    using inv mem unfolding merge_invariant_def by force
  have k: "?k \<in> merged I"
    using merged.join [OF ex net ne] key by simp
  have vnet: "valid_network net" and vex: "valid_network existing"
    using merged_valid [OF valid] net ex by blast+
  have only: "v = existing" if "(?k, v) \<in> set subnets" for v
    using eq_key_imp_eq_value [OF d that mem] .
  have cover: "\<exists>v \<in> set (?k # to_merge) \<union> snd ` set (AList.delete ?k subnets). inside i v"
    if i: "i \<in> I" for i
  proof -
    from inv i obtain v where v: "v \<in> set (net # to_merge) \<union> snd ` set subnets" "inside i v"
      unfolding merge_invariant_def by blast
    consider "v = net" | "v = existing" | "v \<in> set to_merge"
      | k' where "(k', v) \<in> set subnets" "v \<noteq> existing"
      using v(1) by force
    then show ?thesis
    proof cases
      case 1
      then have "inside i ?k"
        using v(2) inside_supernet [OF vnet] inside_trans by blast
      then show ?thesis by auto
    next
      case 2
      then have "inside i ?k"
        using v(2) inside_supernet [OF vex] inside_trans key by metis
      then show ?thesis by auto
    next
      case 3
      then show ?thesis using v(2) by auto
    next
      case 4
      then have "k' \<noteq> ?k"
        using only by blast
      then have "(k', v) \<in> set (AList.delete ?k subnets)"
        using 4(1) by (simp add: set_delete)
      then have "v \<in> snd ` set (AList.delete ?k subnets)"
        by force
      then show ?thesis using v(2) by blast
    qed
  qed
  have sub: "set (AList.delete ?k subnets) \<subseteq> set subnets"
    by (auto simp: set_delete)
  have "set (?k # to_merge) \<union> snd ` set (AList.delete ?k subnets) \<subseteq> merged I"
    using inv k sub unfolding merge_invariant_def by auto
  moreover have "\<forall>kv \<in> set (AList.delete ?k subnets). fst kv = supernet (snd kv)"
    using inv sub unfolding merge_invariant_def by blast
  moreover have "distinct (map fst (AList.delete ?k subnets))"
    using d by (rule distinct_delete)
  ultimately show ?thesis
    unfolding merge_invariant_def using cover by blast
qed

lemma merge_loop_invariant:
  assumes "merge_invariant I to_merge subnets" and "\<forall>n \<in> I. valid_network n"
  shows "merge_invariant I [] (merge_loop to_merge subnets)"
  using assms(1)
proof (induction to_merge subnets rule: merge_loop.induct)
  case (1 subnets)
  then show ?case by (simp add: merge_loop.simps)
next
  case (2 net to_merge subnets)
  show ?case
  proof (cases "map_of subnets (supernet net)")
    case None
    then show ?thesis
      using 2 merge_invariant_store [OF "2.prems" None]
      by (simp add: merge_loop.simps(2))
  next
    case (Some existing)
    show ?thesis
    proof (cases "existing = net")
      case True
      then show ?thesis
        using 2 Some merge_invariant_same [OF "2.prems"]
        by (simp add: merge_loop.simps(2))
    next
      case False
      then show ?thesis
        using 2 Some merge_invariant_join [OF "2.prems" assms(2) Some False]
        by (simp add: merge_loop.simps(2))
    qed
  qed
qed

lemma merged_covered:
  assumes inv: "merge_invariant I [] subnets" and valid: "\<forall>n \<in> I. valid_network n"
    and m: "m \<in> merged I"
  shows "\<exists>v \<in> snd ` set subnets. inside m v"
  using m
proof induction
  case (base n)
  then show ?case
    using inv unfolding merge_invariant_def by auto
next
  case (join a b)
  then obtain va vb where va: "va \<in> snd ` set subnets" "inside a va"
    and vb: "vb \<in> snd ` set subnets" "inside b vb"
    by blast
  have vala: "valid_network a" and valb: "valid_network b"
    using merged_valid [OF valid] join.hyps by blast+
  show ?case
  proof (cases "a = va")
    case False
    then show ?thesis
      using supernet_inside [OF vala va(2)] va(1) by blast
  next
    case a: True
    show ?thesis
    proof (cases "b = vb")
      case False
      then show ?thesis
        using supernet_inside [OF valb vb(2)] vb(1) join.hyps(4) by auto
    next
      case b: True
      from va(1) a obtain ka where ka: "(ka, a) \<in> set subnets" by force
      from vb(1) b obtain kb where kb: "(kb, b) \<in> set subnets" by force
      have "ka = supernet a" "kb = supernet b"
        using inv ka kb unfolding merge_invariant_def by force+
      then have "ka = kb"
        using join.hyps(4) by simp
      moreover have "distinct (map fst subnets)"
        using inv by (simp add: merge_invariant_def)
      ultimately have "a = b"
        using ka kb eq_key_imp_eq_value by metis
      with join.hyps(3) show ?thesis by simp
    qed
  qed
qed

lemma maximal_of_values:
  assumes inv: "merge_invariant I [] subnets" and valid: "\<forall>n \<in> I. valid_network n"
  shows "maximal_of (snd ` set subnets) = maximal_of (merged I)"
proof -
  have sub: "snd ` set subnets \<subseteq> merged I"
    using inv by (simp add: merge_invariant_def)
  show ?thesis
  proof (intro set_eqI iffI)
    fix x
    assume x: "x \<in> maximal_of (snd ` set subnets)"
    then have xm: "x \<in> merged I"
      using sub by (auto simp: maximal_of_def)
    have "y = x" if y: "y \<in> merged I" "inside x y" for y
    proof -
      from merged_covered [OF inv valid y(1)] obtain v
        where v: "v \<in> snd ` set subnets" "inside y v" by blast
      then have "inside x v"
        using y(2) inside_trans by blast
      then have "v = x"
        using x v(1) by (auto simp: maximal_of_def)
      then have "inside y x"
        using v(2) by simp
      then show ?thesis
        using y(2) inside_antisym merged_valid [OF valid xm] by blast
    qed
    then show "x \<in> maximal_of (merged I)"
      using xm by (auto simp: maximal_of_def)
  next
    fix x
    assume x: "x \<in> maximal_of (merged I)"
    then have xm: "x \<in> merged I"
      by (simp add: maximal_of_def)
    from merged_covered [OF inv valid xm] obtain v
      where v: "v \<in> snd ` set subnets" "inside x v" by blast
    then have "v = x"
      using x sub by (auto simp: maximal_of_def)
    then have "x \<in> snd ` set subnets"
      using v(1) by simp
    then show "x \<in> maximal_of (snd ` set subnets)"
      using x sub by (auto simp: maximal_of_def)
  qed
qed

subsection \<open>The second loop of the collapse\<close>

lemma inside_interval:
  assumes "inside n m" and "valid_network n"
  shows "network_address m \<le> network_address n"
    and "network_address n + block_size n \<le> network_address m + block_size m"
proof -
  let ?a = "network_address n" and ?S = "block_size m" and ?s = "block_size n"
  have m: "network_address m = ?a - ?a mod ?S" and le: "prefixlen m \<le> prefixlen n"
    using assms(1) by (simp_all add: inside_def)
  show "network_address m \<le> ?a"
    by (simp add: m)
  have dvd: "?s dvd ?S"
    by (rule block_size_dvd [OF le])
  then obtain t where t: "?S = ?s * t"
    by (auto simp: dvd_def)
  have "(?a mod ?S) mod ?s = ?a mod ?s"
    by (rule mod_mod_cancel [OF dvd])
  then have "?s dvd ?a mod ?S"
    using assms(2) by (simp add: valid_network_def mod_eq_0_iff_dvd)
  then obtain q where q: "?a mod ?S = ?s * q"
    by (auto simp: dvd_def)
  have "?a mod ?S < ?S"
    by simp
  then have "?s * q < ?s * t"
    using q t by simp
  then have "q < t"
    by (simp add: mult_less_cancel_left_pos)
  then have "q + 1 \<le> t"
    by simp
  then have "?s * (q + 1) \<le> ?s * t"
    by (simp add: mult_le_cancel_left_pos)
  then have "?a mod ?S + ?s \<le> ?S"
    using q t by (simp add: algebra_simps)
  then show "?a + ?s \<le> network_address m + ?S"
    by (simp add: m)
qed

lemma interval_inside:
  assumes "valid_network m" and "prefixlen m \<le> prefixlen n"
    and "network_address m \<le> network_address n"
    and "network_address n < network_address m + block_size m"
  shows "inside n m"
proof -
  let ?a = "network_address n" and ?b = "network_address m" and ?S = "block_size m"
  have b: "?b mod ?S = 0"
    using assms(1) by (simp add: valid_network_def)
  have "?a mod ?S = (?b + (?a - ?b)) mod ?S"
    by simp
  also have "\<dots> = (?a - ?b) mod ?S"
    using b by (metis add.commute add.right_neutral mod_add_right_eq)
  also have "\<dots> = ?a - ?b"
    using assms(3,4) by (intro mod_pos_pos_trivial) simp_all
  finally show ?thesis
    using assms(2) by (simp add: inside_def)
qed

lemma inside_chain:
  assumes "inside z l" and "inside z x" and "prefixlen x \<le> prefixlen l"
  shows "inside l x"
proof -
  have "network_address l - network_address l mod block_size x
      = network_address z - network_address z mod block_size x"
    using assms(1,3) by (simp add: inside_def floor_floor_block)
  then show ?thesis
    using assms(2,3) by (simp add: inside_def)
qed

lemma network_lt_key_le:
  assumes "valid_network l" and "valid_network x"
  shows "network_lt_key l \<le> network_lt_key x \<longleftrightarrow>
     network_address l < network_address x
     \<or> (network_address l = network_address x \<and> prefixlen l \<le> prefixlen x)"
proof -
  have l: "prefixlen l \<le> 32" and x: "prefixlen x \<le> 32"
    using assms by (simp_all add: valid_network_def)
  have "netmask l \<le> netmask x \<longleftrightarrow> prefixlen l \<le> prefixlen x"
  proof -
    have "netmask l \<le> netmask x \<longleftrightarrow> (2::int) ^ (32 - prefixlen x) \<le> 2 ^ (32 - prefixlen l)"
      using l x by (simp add: netmask_eq block_size_def)
    also have "\<dots> \<longleftrightarrow> 32 - prefixlen x \<le> 32 - prefixlen l"
      by (rule power_increasing_iff) simp
    also have "\<dots> \<longleftrightarrow> prefixlen l \<le> prefixlen x"
      using l x by arith
    finally show ?thesis .
  qed
  then show ?thesis
    by (auto simp: network_lt_key_def less_eq_prod_def)
qed

lemma broadcast_le_iff_inside:
  assumes "valid_network l" and "valid_network x"
    and "network_lt_key l \<le> network_lt_key x"
  shows "broadcast_address x \<le> broadcast_address l \<longleftrightarrow> inside x l"
proof
  assume "inside x l"
  from inside_interval(2) [OF this assms(2)] show "broadcast_address x \<le> broadcast_address l"
    by (simp add: broadcast_address_eq assms)
next
  assume "broadcast_address x \<le> broadcast_address l"
  then have hi: "network_address x + block_size x \<le> network_address l + block_size l"
    by (simp add: broadcast_address_eq assms)
  have lo: "network_address l \<le> network_address x"
    using assms by (auto simp: network_lt_key_le)
  have "block_size x \<le> block_size l"
    using hi lo by linarith
  then have "prefixlen l \<le> prefixlen x"
  proof -
    have "\<not> prefixlen x < prefixlen l"
    proof
      assume "prefixlen x < prefixlen l"
      then have "block_size l < block_size x"
        using assms(1) by (intro block_size_strict) (simp_all add: valid_network_def)
      with \<open>block_size x \<le> block_size l\<close> show False by simp
    qed
    then show ?thesis by simp
  qed
  moreover have "network_address x < network_address l + block_size l"
    using hi block_size_pos [of x] by linarith
  ultimately show "inside x l"
    using interval_inside [OF assms(1) _ lo] by blast
qed

lemma inside_between:
  assumes "valid_network l" and "valid_network x" and "valid_network z"
    and "inside z l"
    and "network_lt_key l \<le> network_lt_key x" and "network_lt_key x \<le> network_lt_key z"
  shows "inside x l"
proof -
  have lo: "network_address l \<le> network_address x" "network_address x \<le> network_address z"
    using assms by (auto simp: network_lt_key_le)
  have hi: "network_address z + block_size z \<le> network_address l + block_size l"
    by (rule inside_interval(2) [OF assms(4,3)])
  have zl: "network_address z < network_address l + block_size l"
    using hi block_size_pos [of z] by linarith
  show ?thesis
  proof (cases "prefixlen l \<le> prefixlen x")
    case True
    then show ?thesis
      using interval_inside [OF assms(1) True lo(1)] lo(2) zl by linarith
  next
    case False
    then have lt: "prefixlen x < prefixlen l"
      by simp
    then have strict: "network_address l < network_address x"
      using assms(1,2,5) by (auto simp: network_lt_key_le)
    have "prefixlen l \<le> prefixlen z"
      using assms(4) by (simp add: inside_def)
    then have xz: "prefixlen x \<le> prefixlen z"
      using lt by simp
    have "block_size l \<le> block_size x"
      using lt by (intro block_size_mono) simp
    then have "network_address z < network_address x + block_size x"
      using zl strict by linarith
    then have "inside z x"
      using interval_inside [OF assms(2) xz lo(2)] by blast
    then have "inside l x"
      using inside_chain [OF assms(4)] lt by simp
    then have "network_address x \<le> network_address l"
      using inside_interval(1) assms(1) by blast
    with strict show ?thesis by simp
  qed
qed

lemma inside_key_less:
  assumes "valid_network x" and "valid_network y" and "inside x y" and "x \<noteq> y"
  shows "\<not> network_lt_key x \<le> network_lt_key y"
proof
  assume le: "network_lt_key x \<le> network_lt_key y"
  have lo: "network_address y \<le> network_address x"
    by (rule inside_interval(1) [OF assms(3,1)])
  have p: "prefixlen y \<le> prefixlen x"
    using assms(3) by (simp add: inside_def)
  from le lo p have "network_address x = network_address y \<and> prefixlen x = prefixlen y"
    using assms(1,2) by (auto simp: network_lt_key_le)
  with assms(4) show False by simp
qed

lemma skip_subsumed_Some:
  assumes "sorted (map network_lt_key (l # xs))" and "\<forall>x \<in> set (l # xs). valid_network x"
  shows "set (skip_subsumed (Some l) xs)
           = {x \<in> set xs. \<not> inside x l \<and> (\<forall>y \<in> set xs. inside x y \<longrightarrow> y = x)}
         \<and> distinct (skip_subsumed (Some l) xs)"
  using assms
proof (induction xs arbitrary: l)
  case Nil
  then show ?case by simp
next
  case (Cons x rest)
  have vl: "valid_network l" and vx: "valid_network x"
    and vrest: "\<forall>z \<in> set rest. valid_network z"
    using Cons.prems(2) by simp_all
  have lx: "network_lt_key l \<le> network_lt_key x"
    and xrest: "\<forall>z \<in> set rest. network_lt_key x \<le> network_lt_key z"
    and sl: "sorted (map network_lt_key (l # rest))"
    and sx: "sorted (map network_lt_key (x # rest))"
    using Cons.prems(1) by auto
  have test: "broadcast_address x \<le> broadcast_address l \<longleftrightarrow> inside x l"
    by (rule broadcast_le_iff_inside [OF vl vx lx])
  show ?case
  proof (cases "inside x l")
    case True
    have ih: "set (skip_subsumed (Some l) rest)
        = {z \<in> set rest. \<not> inside z l \<and> (\<forall>y \<in> set rest. inside z y \<longrightarrow> y = z)}
        \<and> distinct (skip_subsumed (Some l) rest)"
      using Cons.IH [OF sl] vl vrest by simp
    have "{z \<in> set (x # rest). \<not> inside z l \<and> (\<forall>y \<in> set (x # rest). inside z y \<longrightarrow> y = z)}
        = {z \<in> set rest. \<not> inside z l \<and> (\<forall>y \<in> set rest. inside z y \<longrightarrow> y = z)}"
      using True inside_trans by auto
    then show ?thesis
      using ih True test by simp
  next
    case False
    have ih: "set (skip_subsumed (Some x) rest)
        = {z \<in> set rest. \<not> inside z x \<and> (\<forall>y \<in> set rest. inside z y \<longrightarrow> y = z)}
        \<and> distinct (skip_subsumed (Some x) rest)"
      using Cons.IH [OF sx] vx vrest by simp
    have top: "y = x" if "y \<in> set rest" "inside x y" for y
      using inside_key_less [OF vx _ that(2)] xrest vrest that(1) by blast
    have out: "\<not> inside z l" if "z \<in> set rest" for z
      using inside_between [OF vl vx _ _ lx] xrest vrest that False by blast
    have "{z \<in> set (x # rest). \<not> inside z l \<and> (\<forall>y \<in> set (x # rest). inside z y \<longrightarrow> y = z)}
        = insert x {z \<in> set rest. \<not> inside z x \<and> (\<forall>y \<in> set rest. inside z y \<longrightarrow> y = z)}"
      (is "?L = ?R")
    proof (intro set_eqI iffI)
      fix z
      assume "z \<in> ?L"
      then show "z \<in> ?R" by auto
    next
      fix z
      assume "z \<in> ?R"
      then show "z \<in> ?L"
        using False top out inside_refl [OF vx] by auto
    qed
    moreover have "x \<notin> set (skip_subsumed (Some x) rest)"
      using ih inside_refl [OF vx] by simp
    ultimately show ?thesis
      using ih False test by simp
  qed
qed

lemma skip_subsumed_None:
  assumes "sorted (map network_lt_key xs)" and "\<forall>x \<in> set xs. valid_network x"
  shows "set (skip_subsumed None xs) = maximal_of (set xs) \<and> distinct (skip_subsumed None xs)"
proof (cases xs)
  case Nil
  then show ?thesis by (simp add: maximal_of_def)
next
  case (Cons x rest)
  have vx: "valid_network x" and vrest: "\<forall>z \<in> set rest. valid_network z"
    using assms(2) Cons by simp_all
  have xrest: "\<forall>z \<in> set rest. network_lt_key x \<le> network_lt_key z"
    using assms(1) Cons by auto
  have s: "set (skip_subsumed (Some x) rest)
        = {z \<in> set rest. \<not> inside z x \<and> (\<forall>y \<in> set rest. inside z y \<longrightarrow> y = z)}
        \<and> distinct (skip_subsumed (Some x) rest)"
    using skip_subsumed_Some [of x rest] assms Cons by simp
  have top: "y = x" if "y \<in> set rest" "inside x y" for y
    using inside_key_less [OF vx _ that(2)] xrest vrest that(1) by blast
  have "maximal_of (set (x # rest))
      = insert x {z \<in> set rest. \<not> inside z x \<and> (\<forall>y \<in> set rest. inside z y \<longrightarrow> y = z)}"
    (is "?L = ?R")
  proof (intro set_eqI iffI)
    fix z
    assume "z \<in> ?L"
    then show "z \<in> ?R" by (auto simp: maximal_of_def)
  next
    fix z
    assume "z \<in> ?R"
    then show "z \<in> ?L"
      using top inside_refl [OF vx] by (auto simp: maximal_of_def)
  qed
  moreover have "x \<notin> set (skip_subsumed (Some x) rest)"
    using s inside_refl [OF vx] by simp
  ultimately show ?thesis
    using s Cons by simp
qed

text \<open>The result of \<open>_collapse_addresses_internal\<close>.\<close>

lemma collapse_addresses_internal_maximal:
  assumes "\<forall>n \<in> set addresses. valid_network n"
  shows "set (collapse_addresses_internal addresses) = maximal_of (merged (set addresses))
         \<and> distinct (collapse_addresses_internal addresses)"
proof -
  let ?I = "set addresses"
  let ?S = "merge_loop (rev addresses) []"
  have "merge_invariant ?I (rev addresses) []"
    using assms inside_refl by (auto simp: merge_invariant_def intro: merged.base)
  then have inv: "merge_invariant ?I [] ?S"
    by (rule merge_loop_invariant [OF _ assms])
  have vals: "\<forall>n \<in> snd ` set ?S. valid_network n"
    using inv merged_valid [OF assms] by (auto simp: merge_invariant_def)
  have "set (skip_subsumed None (sort_key network_lt_key (map snd ?S)))
          = maximal_of (set (sort_key network_lt_key (map snd ?S)))
        \<and> distinct (skip_subsumed None (sort_key network_lt_key (map snd ?S)))"
    using vals by (intro skip_subsumed_None) simp_all
  then show ?thesis
    using maximal_of_values [OF inv assms]
    by (simp add: collapse_addresses_internal_def)
qed

subsection \<open>Parsed networks are valid\<close>

lemma isdigit_of_char: "isdigit c \<Longrightarrow> (48::int) \<le> of_char c"
  by (auto simp: isdigit_def)

lemma foldl_digits_nonneg:
  "list_all isdigit s \<Longrightarrow> 0 \<le> a \<Longrightarrow> 0 \<le> foldl (\<lambda>acc c. 10 * acc + (of_char c - 48)) a s"
  for a :: int
proof (induction s arbitrary: a)
  case Nil
  then show ?case by simp
next
  case (Cons c s)
  have "(48::int) \<le> of_char c"
    using Cons.prems(1) by (simp add: isdigit_of_char)
  then have "0 \<le> 10 * a + (of_char c - 48)"
    using Cons.prems(2) by simp
  then show ?case
    using Cons.IH Cons.prems(1) by simp
qed

lemma parse_octet_range: "parse_octet s = Some v \<Longrightarrow> 0 \<le> v \<and> v \<le> 255"
  using foldl_digits_nonneg [of s 0]
  by (auto simp: parse_octet_def int_of_digits_def split: if_splits)

lemma those_Some_map: "those (map f xs) = Some ys \<Longrightarrow> ys = map (the \<circ> f) xs \<and> (\<forall>x \<in> set xs. f x \<noteq> None)"
  by (induction xs arbitrary: ys) (auto split: option.splits)

lemma ip_int_from_string_range:
  assumes "ip_int_from_string s = Some a"
  shows "0 \<le> a \<and> a < 2 ^ 32"
proof -
  from assms obtain bs where len: "length (split_on CHR ''.'' s) = 4"
    and bs: "those (map parse_octet (split_on CHR ''.'' s)) = Some bs"
    and a: "a = foldl (\<lambda>acc b. acc * 256 + b) 0 bs"
    by (auto simp: ip_int_from_string_def Let_def split: if_splits option.splits)
  from those_Some_map [OF bs] have m: "bs = map (the \<circ> parse_octet) (split_on CHR ''.'' s)"
    and some: "\<forall>x \<in> set (split_on CHR ''.'' s). parse_octet x \<noteq> None"
    by simp_all
  have r: "\<forall>b \<in> set bs. 0 \<le> b \<and> b \<le> 255"
    using some parse_octet_range by (auto simp: m)
  have "length bs = 4"
    using len by (simp add: m)
  then obtain b1 b2 b3 b4 where q: "bs = [b1, b2, b3, b4]"
    by (auto simp: length_Suc_conv numeral_eq_Suc)
  show ?thesis
    using r by (simp add: a q)
qed

lemma make_netmask_range: "make_netmask s = Some p \<Longrightarrow> p \<le> 32"
  by (auto simp: make_netmask_def prefix_from_prefix_string_def prefix_from_ip_string_def
      prefix_from_ip_int_def Let_def IPV4LENGTH_def split: option.splits if_splits)

lemma netmask_check_aligned:
  fixes a :: int
  assumes "0 \<le> a" and "a < 2 ^ 32" and "p \<le> 32" and "a AND ip_int_from_prefix p = a"
  shows "a mod 2 ^ (32 - p) = 0"
proof -
  have t: "p + (32 - p) = 32"
    using assms(3) by simp
  have "ip_int_from_prefix p = push_bit (32 - p) (mask p)"
    using assms(3)
    by (simp add: ip_int_from_prefix_eq push_bit_eq_mult mask_eq_exp_minus_1 algebra_simps t
        flip: power_add)
  also have "\<dots> = mask (p + (32 - p)) AND NOT (mask (32 - p))"
    by (rule push_bit_mask_eq)
  finally have m: "ip_int_from_prefix p = mask 32 AND NOT (mask (32 - p))"
    by (simp add: t)
  have "a AND mask 32 = a"
    using assms(1,2) by (simp flip: take_bit_eq_mask add: take_bit_int_eq_self)
  then have "a AND ip_int_from_prefix p = a AND NOT (mask (32 - p))"
    by (simp add: m flip: and.assoc)
  then have "a - a mod 2 ^ (32 - p) = a"
    using assms(4) by (simp add: and_not_mask_eq)
  then show ?thesis by simp
qed

lemma ip_network_valid:
  assumes "ip_network c = Some n"
  shows "valid_network n"
proof -
  from assms obtain packed p where packed: "IPv4Address (hd (split_on CHR ''/'' c)) = Some packed"
    and p: "(if length (split_on CHR ''/'' c) > 1 then make_netmask (split_on CHR ''/'' c ! 1)
             else Some IPV4LENGTH) = Some p"
    and chk: "packed AND ip_int_from_prefix p = packed"
    and n: "n = \<lparr>network_address = packed, prefixlen = p\<rparr>"
    by (auto simp: ip_network_def IPv4Network_def Let_def split: if_splits option.splits)
  from packed have "ip_int_from_string (hd (split_on CHR ''/'' c)) = Some packed"
    by (simp add: IPv4Address_def split: if_splits)
  then have r: "0 \<le> packed \<and> packed < 2 ^ 32"
    by (rule ip_int_from_string_range)
  have le: "p \<le> 32"
    using p make_netmask_range by (auto simp: IPV4LENGTH_def split: if_splits)
  show ?thesis
    using r le netmask_check_aligned [OF _ _ le chk]
    by (simp add: valid_network_def n block_size_def)
qed

subsection \<open>The networks of \<open>summarize_address_range\<close> are valid\<close>

lemma bit_length_double_plus_one:
  assumes "0 \<le> x"
  shows "bit_length (1 + 2 * x) = Suc (bit_length x)"
proof -
  have "nat \<bar>1 + 2 * x\<bar> = Suc (2 * nat x)"
    using assms by (simp add: nat_add_distrib nat_mult_distrib)
  then show ?thesis
    using assms by (simp add: bit_length_def)
qed

lemma trailing_zero_mask:
  fixes n :: int
  assumes "0 < n"
  shows "0 \<le> NOT n AND (n - 1) \<and> n mod 2 ^ bit_length (NOT n AND (n - 1)) = 0"
  using assms
proof (induction "nat n" arbitrary: n rule: less_induct)
  case less
  show ?case
  proof (cases "even n")
    case False
    have "NOT n AND (n - 1) = 2 * (NOT (n div 2) AND (n - 1) div 2)"
      using False by (subst and_int_rec) (simp add: not_int_div_2)
    also have "(n - 1) div 2 = n div 2"
      using False by (auto elim!: oddE)
    finally have "NOT n AND (n - 1) = 0"
      by simp
    then show ?thesis
      by (simp add: bit_length_def)
  next
    case True
    then obtain m where m: "n = 2 * m"
      by (auto elim: evenE)
    have mpos: "0 < m"
      using less.prems m by simp
    have "nat m < nat n"
      using mpos m by simp
    from less.hyps [OF this mpos]
    have ih: "0 \<le> NOT m AND (m - 1)" "m mod 2 ^ bit_length (NOT m AND (m - 1)) = 0"
      by simp_all
    have "NOT n AND (n - 1) = 1 + 2 * (NOT (n div 2) AND (n - 1) div 2)"
      using True by (subst and_int_rec) (simp add: not_int_div_2)
    also have "(n - 1) div 2 = m - 1"
      by (simp add: m)
    also have "n div 2 = m"
      by (simp add: m)
    finally have t: "NOT n AND (n - 1) = 1 + 2 * (NOT m AND (m - 1))" .
    have b: "bit_length (NOT n AND (n - 1)) = Suc (bit_length (NOT m AND (m - 1)))"
      by (simp only: t bit_length_double_plus_one [OF ih(1)])
    have "n mod 2 ^ Suc (bit_length (NOT m AND (m - 1))) = 0"
      using ih(2) by (simp add: m)
    then have "n mod 2 ^ bit_length (NOT n AND (n - 1)) = 0"
      unfolding b .
    moreover have "0 \<le> NOT n AND (n - 1)"
      unfolding t using ih(1) by simp
    ultimately show ?thesis
      by blast
  qed
qed

lemma count_righthand_zero_bits_aligned:
  assumes "0 \<le> n" and "k \<le> count_righthand_zero_bits n 32"
  shows "n mod 2 ^ k = 0"
proof (cases "n = 0")
  case True
  then show ?thesis by simp
next
  case False
  then have pos: "0 < n" using assms(1) by simp
  let ?b = "bit_length (NOT n AND (n - 1))"
  have "k \<le> ?b"
    using assms(2) False by (simp add: count_righthand_zero_bits_def)
  then have "(2::int) ^ k dvd 2 ^ ?b"
    by (rule le_imp_power_dvd)
  moreover have "(2::int) ^ ?b dvd n"
    using trailing_zero_mask [OF pos] by (simp add: mod_eq_0_iff_dvd)
  ultimately show ?thesis
    using dvd_trans by (simp add: mod_eq_0_iff_dvd) blast
qed

lemma count_righthand_zero_bits_le: "count_righthand_zero_bits n bits \<le> bits"
  by (simp add: count_righthand_zero_bits_def)

lemma summarize_address_range_valid:
  assumes "0 \<le> first_int" and "last_int < 2 ^ 32"
  shows "\<forall>n \<in> set (summarize_address_range first_int last_int). valid_network n"
  using assms
proof (induction first_int last_int rule: summarize_address_range.induct)
  case (1 first_int last_int)
  show ?case
  proof (cases "first_int \<le> last_int")
    case False
    then show ?thesis
      by (simp add: summarize_address_range.simps [of first_int last_int])
  next
    case True
    define nbits where "nbits = min (count_righthand_zero_bits first_int IPV4LENGTH)
        (bit_length (last_int - first_int + 1) - 1)"
    define net where "net = IPv4Network_of_tuple (first_int, IPV4LENGTH - nbits)"
    have le: "nbits \<le> count_righthand_zero_bits first_int 32"
      by (simp add: nbits_def IPV4LENGTH_def)
    then have le32: "nbits \<le> 32"
      using count_righthand_zero_bits_le [of first_int 32] by simp
    have al: "first_int mod 2 ^ nbits = 0"
      by (rule count_righthand_zero_bits_aligned [OF "1.prems"(1) le])
    have "32 - (32 - nbits) = nbits"
      using le32 by simp
    then have vnet: "valid_network net"
      using "1.prems" True al
      by (simp add: valid_network_def net_def IPv4Network_of_tuple_def block_size_def
          IPV4LENGTH_def)
    have rest: "\<forall>n \<in> set (summarize_address_range (first_int + push_bit nbits 1) last_int).
        valid_network n"
      if "first_int + push_bit nbits 1 - 1 \<noteq> ALL_ONES"
    proof -
      have "0 \<le> first_int + push_bit nbits 1"
        using "1.prems"(1) by (simp add: push_bit_eq_mult)
      then show ?thesis
        using "1.IH" [OF True nbits_def net_def that _ "1.prems"(2)] by simp
    qed
    have step: "summarize_address_range first_int last_int =
        (if first_int + push_bit nbits 1 - 1 = ALL_ONES then [net]
         else net # summarize_address_range (first_int + push_bit nbits 1) last_int)"
      by (subst summarize_address_range.simps) (simp only: True if_True Let_def nbits_def net_def)
    show ?thesis
      using vnet rest by (simp only: step) simp
  qed
qed

subsection \<open>The input of the merge depends on the set of networks only\<close>

lemma find_address_range_from_mem:
  "(a, b) \<in> set (find_address_range_from first_ip last_ip it)
   \<Longrightarrow> a \<in> insert first_ip (set it) \<and> b \<in> insert last_ip (set it)"
  by (induction it arbitrary: first_ip last_ip) (auto split: if_splits)

lemma find_address_range_mem:
  "(a, b) \<in> set (find_address_range ips) \<Longrightarrow> a \<in> set ips \<and> b \<in> set ips"
  using find_address_range_from_mem by (cases ips) (auto simp: find_address_range_def)

lemma sorted_addresses_cong:
  assumes "set xs = set ys"
  shows "sort (remdups (map network_address (filter P xs)))
       = sort (remdups (map network_address (filter P ys)))"
proof -
  have "set (map network_address (filter P xs)) = set (map network_address (filter P ys))"
    using assms by auto
  then show ?thesis
    by (simp only: sorted_list_of_set_sort_remdups [symmetric])
qed

lemma collapse_addresses_maximal:
  assumes "\<forall>n \<in> set xs. valid_network n"
  shows "\<exists>addrs. (\<forall>n \<in> set addrs. valid_network n) \<and> (\<forall>ys. set ys = set xs \<longrightarrow>
             set (collapse_addresses ys) = maximal_of (merged (set addrs \<union> {n \<in> set xs. prefixlen n \<noteq> IPV4LENGTH}))
             \<and> distinct (collapse_addresses ys))"
proof -
  define ips where "ips zs = sort (remdups (map network_address
      (filter (\<lambda>ip. prefixlen ip = IPV4LENGTH) zs)))" for zs :: "ipv4network list"
  define addrs where "addrs zs = concat (map (\<lambda>(first_ip, last_ip).
      summarize_address_range first_ip last_ip) (find_address_range (ips zs)))"
    for zs :: "ipv4network list"
  have unfold: "collapse_addresses zs = collapse_addresses_internal
      (addrs zs @ filter (\<lambda>ip. prefixlen ip \<noteq> IPV4LENGTH) zs)" for zs
    by (simp add: collapse_addresses_def addrs_def ips_def)
  have range: "0 \<le> a \<and> a < 2 ^ 32" if "a \<in> set (ips xs)" for a
    using that assms by (auto simp: ips_def valid_network_def)
  have va: "\<forall>n \<in> set (addrs xs). valid_network n"
  proof
    fix n
    assume "n \<in> set (addrs xs)"
    then obtain a b where ab: "(a, b) \<in> set (find_address_range (ips xs))"
      and n: "n \<in> set (summarize_address_range a b)"
      by (auto simp: addrs_def)
    from find_address_range_mem [OF ab] range have "0 \<le> a" "b < 2 ^ 32"
      by blast+
    from summarize_address_range_valid [OF this] n show "valid_network n"
      by blast
  qed
  have "set (collapse_addresses ys)
        = maximal_of (merged (set (addrs xs) \<union> {n \<in> set xs. prefixlen n \<noteq> IPV4LENGTH}))
      \<and> distinct (collapse_addresses ys)"
    if eq: "set ys = set xs" for ys
  proof -
    have same: "addrs ys = addrs xs"
      unfolding addrs_def ips_def by (simp only: sorted_addresses_cong [OF eq])
    have valid: "\<forall>n \<in> set (addrs ys @ filter (\<lambda>ip. prefixlen ip \<noteq> IPV4LENGTH) ys).
        valid_network n"
      using va assms eq by (auto simp: same)
    have s: "set (addrs ys @ filter (\<lambda>ip. prefixlen ip \<noteq> IPV4LENGTH) ys)
        = set (addrs xs) \<union> {n \<in> set xs. prefixlen n \<noteq> IPV4LENGTH}"
      using eq by (auto simp: same)
    show ?thesis
      using collapse_addresses_internal_maximal [OF valid]
      by (simp only: unfold s)
  qed
  with va show ?thesis by blast
qed

lemma collapse_addresses_cong:
  assumes "\<forall>n \<in> set xs. valid_network n" and "set ys = set xs"
  shows "mset (collapse_addresses ys) = mset (collapse_addresses xs)"
proof -
  from collapse_addresses_maximal [OF assms(1)] obtain addrs where
    a: "\<And>zs. set zs = set xs \<Longrightarrow>
       set (collapse_addresses zs)
         = maximal_of (merged (set addrs \<union> {n \<in> set xs. prefixlen n \<noteq> IPV4LENGTH}))
       \<and> distinct (collapse_addresses zs)"
    by blast
  from a [OF assms(2)] a [OF refl]
  have "set (collapse_addresses ys) = set (collapse_addresses xs)"
    and "distinct (collapse_addresses ys)" and "distinct (collapse_addresses xs)"
    by simp_all
  then show ?thesis
    by (simp add: set_eq_iff_mset_eq_distinct)
qed

lemma distinct_collapse_addresses:
  assumes "\<forall>n \<in> set xs. valid_network n"
  shows "distinct (collapse_addresses xs)"
  using collapse_addresses_maximal [OF assms] by blast

lemma inj_address_prefix_key: "inj_on address_prefix_key A"
  by (auto simp: inj_on_def address_prefix_key_def)

lemma parsed_valid:
  assumes "those (map ip_network cidrs) = Some objs"
  shows "\<forall>n \<in> set objs. valid_network n"
proof -
  from those_Some_map [OF assms] have "objs = map (the \<circ> ip_network) cidrs"
    and "\<forall>c \<in> set cidrs. ip_network c \<noteq> None"
    by simp_all
  then show ?thesis
    using ip_network_valid by auto
qed

subsection \<open>Printing a network and parsing it again\<close>

lemma split_on_none: "sep \<notin> set xs \<Longrightarrow> split_on sep xs = [xs]"
  by (induction xs) auto

lemma split_on_append:
  "sep \<notin> set xs \<Longrightarrow> split_on sep (xs @ sep # ys) = xs # split_on sep ys"
  by (induction xs) auto

lemma digit_chars:
  "list_all (\<lambda>d. isdigit (char_of (48 + d)) \<and> (of_char (char_of (48 + d)) :: int) = 48 + int d
      \<and> (d \<noteq> 0 \<longrightarrow> char_of (48 + d) \<noteq> CHR ''0'')) [0..<10]"
  by code_simp

lemma digit_char:
  assumes "d < 10"
  shows "isdigit (char_of (48 + d))"
    and "(of_char (char_of (48 + d)) :: int) = 48 + int d"
    and "d \<noteq> 0 \<Longrightarrow> char_of (48 + d) \<noteq> CHR ''0''"
  using digit_chars assms by (simp_all add: list_all_iff)

lemma isdigit_no_separator: "isdigit c \<Longrightarrow> c \<noteq> CHR ''.'' \<and> c \<noteq> CHR ''/''"
  by (auto simp: isdigit_def)

lemma str_nat_less: "n < 10 \<Longrightarrow> str_nat n = [char_of (48 + n)]"
  by simp

lemma str_nat_ge: "\<not> n < 10 \<Longrightarrow> str_nat n = str_nat (n div 10) @ [char_of (48 + n mod 10)]"
  by (subst str_nat.simps) simp

lemma str_nat_digits: "list_all isdigit (str_nat n)"
proof (induction n rule: str_nat.induct)
  case (1 n)
  show ?case
  proof (cases "n < 10")
    case True
    then show ?thesis
      by (simp add: digit_char(1))
  next
    case False
    have "n mod 10 < 10"
      by simp
    then have "isdigit (char_of (48 + n mod 10))"
      by (rule digit_char(1))
    then show ?thesis
      using 1 [OF False] by (simp add: str_nat_ge [OF False] del: str_nat.simps)
  qed
qed

lemma str_nat_no_separator: "CHR ''.'' \<notin> set (str_nat n)" "CHR ''/'' \<notin> set (str_nat n)"
  using str_nat_digits [of n] isdigit_no_separator by (auto simp only: list_all_iff)

lemma str_nat_not_Nil: "str_nat n \<noteq> []"
  by (cases "n < 10") (simp_all only: str_nat_less str_nat_ge, simp_all)

lemma int_of_digits_snoc: "int_of_digits (s @ [c]) = 10 * int_of_digits s + (of_char c - 48)"
  by (simp add: int_of_digits_def)

lemma int_of_digits_str_nat: "int_of_digits (str_nat n) = int n"
proof (induction n rule: str_nat.induct)
  case (1 n)
  show ?case
  proof (cases "n < 10")
    case True
    then show ?thesis
      by (simp only: str_nat_less) (simp add: int_of_digits_def digit_char(2))
  next
    case False
    have "n mod 10 < 10"
      by simp
    then have "(of_char (char_of (48 + n mod 10)) :: int) = 48 + int (n mod 10)"
      by (rule digit_char(2))
    then have "int_of_digits (str_nat n) = 10 * int (n div 10) + int (n mod 10)"
      using 1 [OF False] by (simp only: str_nat_ge [OF False] int_of_digits_snoc)
    also have "\<dots> = int n"
    proof -
      have "int (10 * (n div 10) + n mod 10) = int n"
        by (simp only: mult_div_mod_eq)
      then show ?thesis
        by (simp only: of_nat_add of_nat_mult of_nat_numeral)
    qed
    finally show ?thesis .
  qed
qed

lemma hd_str_nat: "0 < n \<Longrightarrow> hd (str_nat n) \<noteq> CHR ''0''"
proof (induction n rule: str_nat.induct)
  case (1 n)
  show ?case
  proof (cases "n < 10")
    case True
    then show ?thesis
      using "1.prems" digit_char(3) [of n] by (simp only: str_nat_less) simp
  next
    case False
    then have "0 < n div 10"
      by simp
    then have "hd (str_nat (n div 10)) \<noteq> CHR ''0''"
      by (rule "1.IH" [OF False])
    then show ?thesis
      by (simp add: str_nat_ge [OF False] hd_append2 [OF str_nat_not_Nil] del: str_nat.simps)
  qed
qed

lemma length_str_nat: "n < 1000 \<Longrightarrow> length (str_nat n) \<le> 3"
proof -
  assume n: "n < 1000"
  have l1: "length (str_nat k) = 1" if "k < 10" for k
    using that by (simp only: str_nat_less) simp
  have l2: "length (str_nat k) \<le> 2" if "k < 100" for k
  proof (cases "k < 10")
    case True
    then show ?thesis by (simp add: l1 del: str_nat.simps)
  next
    case False
    have "k div 10 < 10" using that by simp
    then show ?thesis
      by (simp only: str_nat_ge [OF False] length_append l1) simp
  qed
  show ?thesis
  proof (cases "n < 10")
    case True
    then show ?thesis by (simp add: l1 del: str_nat.simps)
  next
    case False
    have "n div 10 < 100" using n by simp
    from l2 [OF this] show ?thesis
      by (simp only: str_nat_ge [OF False] length_append) simp
  qed
qed

lemma octet_roundtrip: "b < 256 \<Longrightarrow> parse_octet (str_nat b) = Some (int b)"
proof -
  assume b: "b < 256"
  have z: "str_nat b \<noteq> ''0'' \<and> hd (str_nat b) = CHR ''0'' \<longleftrightarrow> False"
  proof (cases "b = 0")
    case True
    then show ?thesis by simp
  next
    case False
    then show ?thesis using hd_str_nat [of b] by simp
  qed
  have l: "\<not> 3 < length (str_nat b)"
    using length_str_nat [of b] b by simp
  show ?thesis
    unfolding parse_octet_def
    using b by (simp only: z l str_nat_not_Nil str_nat_digits int_of_digits_str_nat) simp
qed

lemma prefix_roundtrip: "p \<le> 32 \<Longrightarrow> make_netmask (str_nat p) = Some p"
  unfolding make_netmask_def prefix_from_prefix_string_def
  by (simp only: str_nat_not_Nil str_nat_digits int_of_digits_str_nat) (simp add: IPV4LENGTH_def)

lemma octets_of_address:
  fixes a :: int
  assumes "0 \<le> a" and "a < 2 ^ 32"
  shows "((a div 2 ^ 24 mod 256 * 256 + a div 2 ^ 16 mod 256) * 256 + a div 2 ^ 8 mod 256) * 256
           + a mod 256 = a"
proof -
  define q1 where "q1 = a div 256"
  define q2 where "q2 = q1 div 256"
  define q3 where "q3 = q2 div 256"
  have d1: "a div 2 ^ 8 = q1"
    by (simp add: q1_def)
  have d2: "a div 2 ^ 16 = q2"
    using zdiv_zmult2_eq [of 256 a 256] by (simp add: q1_def q2_def)
  have d3: "a div 2 ^ 24 = q3"
    using zdiv_zmult2_eq [of 256 "a div 256" 256] zdiv_zmult2_eq [of 65536 a 256]
    by (simp add: q1_def q2_def q3_def)
  have "q3 < 256"
    using assms(2) unfolding d3 [symmetric] by simp
  moreover have "0 \<le> q3"
    using assms(1) unfolding d3 [symmetric] by simp
  ultimately have m3: "q3 mod 256 = q3"
    by simp
  define r0 where "r0 = a mod 256"
  define r1 where "r1 = q1 mod 256"
  define r2 where "r2 = q2 mod 256"
  have e1: "a = 256 * q1 + r0"
    by (simp add: q1_def r0_def)
  have e2: "q1 = 256 * q2 + r1"
    by (simp add: q2_def r1_def)
  have e3: "q2 = 256 * q3 + r2"
    by (simp add: q3_def r2_def)
  have "((q3 * 256 + r2) * 256 + r1) * 256 + r0 = a"
    by (subst e1, subst e2, subst e3) (simp add: algebra_simps)
  then have "((q3 mod 256 * 256 + q2 mod 256) * 256 + q1 mod 256) * 256 + a mod 256 = a"
    by (simp only: m3 r0_def r1_def r2_def)
  then show ?thesis
    by (simp only: d1 d2 d3)
qed

lemma ip_int_from_string_roundtrip:
  assumes "0 \<le> a" and "a < 2 ^ 32"
  shows "ip_int_from_string (string_from_ip_int a) = Some a"
proof -
  define b1 where "b1 = nat (a div 2 ^ 24 mod 256)"
  define b2 where "b2 = nat (a div 2 ^ 16 mod 256)"
  define b3 where "b3 = nat (a div 2 ^ 8 mod 256)"
  define b4 where "b4 = nat (a mod 256)"
  have lt: "b1 < 256" "b2 < 256" "b3 < 256" "b4 < 256"
    by (simp_all add: b1_def b2_def b3_def b4_def nat_less_iff)
  have i: "int b1 = a div 2 ^ 24 mod 256" "int b2 = a div 2 ^ 16 mod 256"
    "int b3 = a div 2 ^ 8 mod 256" "int b4 = a mod 256"
    by (simp_all add: b1_def b2_def b3_def b4_def)
  have s: "string_from_ip_int a
      = str_nat b1 @ CHR ''.'' # str_nat b2 @ CHR ''.'' # str_nat b3 @ CHR ''.'' # str_nat b4"
    by (simp add: string_from_ip_int_def b1_def b2_def b3_def b4_def del: str_nat.simps)
  have sp: "split_on CHR ''.'' (string_from_ip_int a)
      = [str_nat b1, str_nat b2, str_nat b3, str_nat b4]"
    by (simp only: s split_on_append [OF str_nat_no_separator(1)]
        split_on_none [OF str_nat_no_separator(1)])
  have ne: "string_from_ip_int a \<noteq> []"
    by (simp add: s str_nat_not_Nil del: str_nat.simps)
  have t: "those (map parse_octet [str_nat b1, str_nat b2, str_nat b3, str_nat b4])
      = Some [int b1, int b2, int b3, int b4]"
    by (simp add: octet_roundtrip lt del: str_nat.simps)
  have v: "((int b1 * 256 + int b2) * 256 + int b3) * 256 + int b4 = a"
    using octets_of_address [OF assms] by (simp only: i)
  show ?thesis
    unfolding ip_int_from_string_def Let_def sp t
    using v ne by (simp del: str_nat.simps)
qed

lemma string_from_ip_int_no_slash: "CHR ''/'' \<notin> set (string_from_ip_int a)"
  by (simp add: string_from_ip_int_def str_nat_no_separator del: str_nat.simps)

lemma and_ip_int_from_prefix:
  fixes a :: int
  assumes "0 \<le> a" and "a < 2 ^ 32" and "p \<le> 32"
  shows "a AND ip_int_from_prefix p = a - a mod 2 ^ (32 - p)"
proof -
  have t: "p + (32 - p) = 32"
    using assms(3) by simp
  have "ip_int_from_prefix p = push_bit (32 - p) (mask p)"
    using assms(3)
    by (simp add: ip_int_from_prefix_eq push_bit_eq_mult mask_eq_exp_minus_1 algebra_simps t
        flip: power_add)
  also have "\<dots> = mask (p + (32 - p)) AND NOT (mask (32 - p))"
    by (rule push_bit_mask_eq)
  finally have m: "ip_int_from_prefix p = mask 32 AND NOT (mask (32 - p))"
    by (simp add: t)
  have "a AND mask 32 = a"
    using assms(1,2) by (simp flip: take_bit_eq_mask add: take_bit_int_eq_self)
  then have "a AND ip_int_from_prefix p = a AND NOT (mask (32 - p))"
    by (simp add: m flip: and.assoc)
  then show ?thesis
    by (simp add: and_not_mask_eq)
qed

lemma ip_network_str_network:
  assumes "valid_network n"
  shows "ip_network (str_network n) = Some n"
proof -
  let ?a = "network_address n" and ?p = "prefixlen n"
  have r: "0 \<le> ?a" "?a < 2 ^ 32" and le: "?p \<le> 32" and al: "?a mod 2 ^ (32 - ?p) = 0"
    using assms by (simp_all add: valid_network_def block_size_def)
  have s: "str_network n = string_from_ip_int ?a @ CHR ''/'' # str_nat ?p"
    by (simp add: str_network_def del: str_nat.simps)
  have sp: "split_on CHR ''/'' (str_network n) = [string_from_ip_int ?a, str_nat ?p]"
    by (simp only: s split_on_append [OF string_from_ip_int_no_slash]
        split_on_none [OF str_nat_no_separator(2)])
  have a: "IPv4Address (string_from_ip_int ?a) = Some ?a"
    by (simp add: IPv4Address_def string_from_ip_int_no_slash ip_int_from_string_roundtrip [OF r])
  have chk: "?a AND ip_int_from_prefix ?p = ?a"
    by (simp add: and_ip_int_from_prefix [OF r le] al)
  show ?thesis
    by (simp add: ip_network_def IPv4Network_def sp a prefix_roundtrip [OF le] chk Let_def
        del: str_nat.simps)
qed

lemma maximal_of_subset: "maximal_of M \<subseteq> M"
  by (auto simp: maximal_of_def)

lemma collapse_addresses_valid:
  assumes "\<forall>n \<in> set xs. valid_network n"
  shows "\<forall>n \<in> set (collapse_addresses xs). valid_network n"
proof -
  from collapse_addresses_maximal [OF assms] obtain addrs where
    va: "\<forall>n \<in> set addrs. valid_network n"
    and a: "set (collapse_addresses xs)
       = maximal_of (merged (set addrs \<union> {n \<in> set xs. prefixlen n \<noteq> IPV4LENGTH}))"
    by blast
  have "\<forall>n \<in> set addrs \<union> {n \<in> set xs. prefixlen n \<noteq> IPV4LENGTH}. valid_network n"
    using va assms by blast
  from merged_valid [OF this] show ?thesis
    using maximal_of_subset by (auto simp only: a)
qed

lemma collapse_three:
  "collapse_cidrs [''10.0.1.0/24'', ''10.0.4.0/24'', ''10.0.0.0/24'']
     = Inr [''10.0.0.0/23'', ''10.0.4.0/24'']"
  by code_simp

lemma three_parse:
  "list_all (\<lambda>c. ip_network c \<noteq> None) [''10.0.1.0/24'', ''10.0.4.0/24'', ''10.0.0.0/24'']"
  by code_simp

section \<open>The claims\<close>

text \<open>
  Claim C1. For every desired list \<open>D\<close> and current list \<open>C\<close> of CIDR strings, the
  diff of the update step has \<open>to_add = D - C\<close> and \<open>to_remove = C - D\<close> as sets, the
  two are disjoint, and removing \<open>to_remove\<close> from \<open>C\<close> and adding \<open>to_add\<close> gives
  \<open>D\<close>.
\<close>

theorem diff_correct:
  "to_add D C = set D - set C \<and> to_remove D C = set C - set D
   \<and> to_add D C \<inter> to_remove D C = {}
   \<and> (set C - to_remove D C) \<union> to_add D C = set D"
  by (auto simp: to_add_def to_remove_def)

text \<open>
  Claim C8. Outside dry-run mode the mutation requests of the update step are, in this
  order: one revoke request if \<open>to_remove\<close> is not empty, then one authorize request
  if \<open>to_add\<close> is not empty (and the revoke request, if there was one, did not raise).
  Each request carries one permission whose ranges are exactly the CIDRs of its
  direction.
\<close>

theorem revoke_then_authorize_batched:
  assumes "\<not> DRY_RUN w"
  shows "filter is_mutation (fst (replace_sg_ingress_rules w after_cidrs current_cidrs)) =
       (if to_remove after_cidrs current_cidrs = {} then []
        else [RevokeSecurityGroupIngress (revoke_payload (to_remove after_cidrs current_cidrs))]) @
       (if to_add after_cidrs current_cidrs = {}
           \<or> (to_remove after_cidrs current_cidrs \<noteq> {} \<and> revoke_raises w) then []
        else [AuthorizeSecurityGroupIngress (auth_payload (to_add after_cidrs current_cidrs))])
     \<and> (\<exists>p. revoke_payload (to_remove after_cidrs current_cidrs) = [p]
            \<and> CidrIp ` IpRanges p = to_remove after_cidrs current_cidrs)
     \<and> (\<exists>p. auth_payload (to_add after_cidrs current_cidrs) = [p]
            \<and> CidrIp ` IpRanges p = to_add after_cidrs current_cidrs)"
  using assms by (simp add: replace_mutations revoke_payload_def auth_payload_def image_image)

text \<open>
  Witness for C8: the sample world is not in dry-run mode; replacing the two halves by
  \<open>10.0.0.0/23\<close> issues the revoke request and then the authorize request.
\<close>

theorem revoke_then_authorize_batched_witness:
  "\<not> DRY_RUN sample_world \<and>
   filter is_mutation (fst (replace_sg_ingress_rules sample_world
       [''10.0.0.0/23''] [''10.0.0.0/24'', ''10.0.1.0/24''])) =
     [RevokeSecurityGroupIngress (revoke_payload {''10.0.0.0/24'', ''10.0.1.0/24''}),
      AuthorizeSecurityGroupIngress (auth_payload {''10.0.0.0/23''})]"
proof -
  have d: "\<not> DRY_RUN sample_world" by (simp add: sample_world_def)
  show ?thesis
    using d revoke_then_authorize_batched [OF d, of "[''10.0.0.0/23'']" "[''10.0.0.0/24'', ''10.0.1.0/24'']"]
    by (simp add: sample_diff sample_world_def)
qed

text \<open>
  Claim C10. Every revoke or authorize request of a run, in whatever world, carries only
  permissions with protocol \<open>tcp\<close> and \<open>FromPort = ToPort = 443\<close>.
\<close>

theorem mutation_payloads_tcp_443:
  "\<forall>e \<in> set (fst (main w)). \<forall>ps.
     e = RevokeSecurityGroupIngress ps \<or> e = AuthorizeSecurityGroupIngress ps \<longrightarrow>
     (\<forall>p \<in> set ps. IpProtocol p = ''tcp'' \<and> FromPort p = 443 \<and> ToPort p = 443)"
proof (intro ballI allI impI)
  fix e ps p
  assume e: "e \<in> set (fst (main w))"
    and ps: "e = RevokeSecurityGroupIngress ps \<or> e = AuthorizeSecurityGroupIngress ps"
    and p: "p \<in> set ps"
  from e ps have m: "e \<in> set (filter is_mutation (fst (main w)))"
    by auto
  have "\<exists>S. ps = revoke_payload S \<or> ps = auth_payload S"
    using main_mutations_cases [of w]
  proof
    assume "filter is_mutation (fst (main w)) = []"
    with m show ?thesis by simp
  next
    assume "\<exists>a c. filter is_mutation (fst (main w)) =
                   filter is_mutation (fst (replace_sg_ingress_rules w a c))"
    then obtain a c where eq: "filter is_mutation (fst (main w)) =
        filter is_mutation (fst (replace_sg_ingress_rules w a c))"
      by blast
    from m have "e \<in> set (filter is_mutation (fst (replace_sg_ingress_rules w a c)))"
      by (simp only: eq)
    then show ?thesis
      using ps by (auto simp: replace_mutations split: if_splits)
  qed
  then show "IpProtocol p = ''tcp'' \<and> FromPort p = 443 \<and> ToPort p = 443"
    using p by (auto simp: revoke_payload_def auth_payload_def AWS_SG_RULE_PORT_def)
qed

text \<open>
  Witness for C10: the run of the sample world issues an authorize request for
  \<open>10.0.0.0/23\<close>, and the theorem gives its protocol and ports.
\<close>

theorem mutation_payloads_tcp_443_witness:
  "AuthorizeSecurityGroupIngress (auth_payload {''10.0.0.0/23''})
     \<in> set (fst (main sample_world))
   \<and> list_all (\<lambda>p. IpProtocol p = ''tcp'' \<and> FromPort p = 443 \<and> ToPort p = 443)
        (auth_payload {''10.0.0.0/23''})"
proof -
  have mem: "AuthorizeSecurityGroupIngress (auth_payload {''10.0.0.0/23''})
      \<in> set (fst (main sample_world))"
    by (simp add: sample_main sample_decide_events)
  from mutation_payloads_tcp_443 [of sample_world, rule_format, OF mem,
      of "auth_payload {''10.0.0.0/23''}"]
  have "\<forall>p \<in> set (auth_payload {''10.0.0.0/23''}).
      IpProtocol p = ''tcp'' \<and> FromPort p = 443 \<and> ToPort p = 443"
    by blast
  with mem show ?thesis by (simp only: list_all_iff)
qed

text \<open>
  Counterexample to C2 as stated: with 61 desired ranges, an empty security group, no
  dry-run and no Slack token, the run sends no alert at all.
\<close>

theorem limit_alert_needs_token:
  "\<not> DRY_RUN (wide_world\<lparr>SLACK_BOT_TOKEN := None\<rparr>)
   \<and> extract_bitbucket_egress_ipv4 wide_feed = Inr (wide_cidrs, wide_cidrs)
   \<and> length wide_cidrs = 61
   \<and> snd (get_sg_ingress_rules (wide_world\<lparr>SLACK_BOT_TOKEN := None\<rparr>)) = Inr []
   \<and> set wide_cidrs \<noteq> set []
   \<and> filter is_chat_post (fst (main (wide_world\<lparr>SLACK_BOT_TOKEN := None\<rparr>))) = []"
proof -
  let ?w = "wide_world\<lparr>SLACK_BOT_TOKEN := None\<rparr>"
  have f: "feed_response ?w = Some wide_feed" and d: "describe_response ?w = Some empty_group"
    by (simp_all add: wide_world_def)
  have ne: "wide_cidrs \<noteq> []"
    using length_wide_cidrs by auto
  have "filter is_chat_post (fst (main ?w)) = []"
    using ne
    by (simp add: main_reaches_decide [OF f wide_extract empty_rules [OF d]] report_counts_eq
        decide_posts length_wide_cidrs AWS_SG_RULE_LIMIT_def token_missing_def)
  moreover have "\<not> DRY_RUN ?w"
    by (simp add: wide_world_def)
  ultimately show ?thesis
    using ne by (simp add: wide_extract length_wide_cidrs empty_rules [OF d])
qed

text \<open>
  Claim C2, amended. Whenever the collapsed list has more than 60 entries and differs
  from the current list, the run issues no revoke and no authorize request and ends with
  exit status 1; it posts exactly one alert when dry-run is off and the Slack token is
  set, and none when dry-run is on or the token is missing.
\<close>

theorem limit_gate:
  assumes "feed_response w = Some data"
    and "extract_bitbucket_egress_ipv4 data = Inr (before_cidrs, after_cidrs)"
    and "snd (get_sg_ingress_rules w) = Inr current_cidrs"
    and "after_cidrs \<noteq> current_cidrs"
    and "length after_cidrs > AWS_SG_RULE_LIMIT"
  shows "filter is_mutation (fst (main w)) = []
     \<and> exit_status (snd (main w)) = 1
     \<and> filter is_chat_post (fst (main w)) =
         (if DRY_RUN w \<or> token_missing w then []
          else [ChatPostMessage (AlertLimitExceeded (length after_cidrs))])"
  using assms(4,5)
  by (simp add: main_reaches_decide [OF assms(1-3)] report_counts_eq decide_mutations
      decide_posts snd_decide)

text \<open>
  Witness for C2: the world of 61 ranges with a token; one alert, no mutation, status 1.
\<close>

theorem limit_gate_witness:
  "feed_response wide_world = Some wide_feed
   \<and> extract_bitbucket_egress_ipv4 wide_feed = Inr (wide_cidrs, wide_cidrs)
   \<and> snd (get_sg_ingress_rules wide_world) = Inr []
   \<and> wide_cidrs \<noteq> []
   \<and> length wide_cidrs > AWS_SG_RULE_LIMIT
   \<and> filter is_mutation (fst (main wide_world)) = []
   \<and> exit_status (snd (main wide_world)) = 1
   \<and> filter is_chat_post (fst (main wide_world)) = [ChatPostMessage (AlertLimitExceeded 61)]"
proof -
  have f: "feed_response wide_world = Some wide_feed"
    and d: "describe_response wide_world = Some empty_group"
    by (simp_all add: wide_world_def)
  have ne: "wide_cidrs \<noteq> []"
    using length_wide_cidrs by auto
  have l: "length wide_cidrs > AWS_SG_RULE_LIMIT"
    by (simp add: length_wide_cidrs AWS_SG_RULE_LIMIT_def)
  have t: "\<not> (DRY_RUN wide_world \<or> token_missing wide_world)"
    by (simp add: wide_world_def token_missing_def)
  show ?thesis
    using limit_gate [OF f wide_extract empty_rules [OF d] ne l] f ne l t
    by (simp add: wide_extract empty_rules [OF d] length_wide_cidrs)
qed

text \<open>
  Counterexample to C4 as stated: in dry-run mode with a diff that is not empty the run
  ends through \<open>sys.exit()\<close>, whose exit status is 0.
\<close>

theorem dry_run_exits_zero:
  "DRY_RUN (sample_world\<lparr>DRY_RUN := True\<rparr>)
   \<and> to_remove [''10.0.0.0/23''] [''10.0.0.0/24'', ''10.0.1.0/24''] \<noteq> {}
   \<and> snd (main (sample_world\<lparr>DRY_RUN := True\<rparr>)) = Inl (SystemExit None)
   \<and> exit_status (snd (main (sample_world\<lparr>DRY_RUN := True\<rparr>))) = 0"
proof -
  let ?w = "sample_world\<lparr>DRY_RUN := True\<rparr>"
  have f: "feed_response ?w = Some sample_feed"
    and d: "describe_response ?w = Some sample_group"
    by (simp_all add: sample_world_def)
  have "snd (main ?w) = Inl (SystemExit None)"
    by (simp add: main_reaches_decide [OF f sample_extract sample_rules [OF d]] snd_decide
        snd_replace sample_diff AWS_SG_RULE_LIMIT_def)
  then show ?thesis
    by (simp add: sample_diff)
qed

text \<open>
  Claim C4, amended. In dry-run mode, with at most 60 desired ranges and a diff that is
  not empty, the run issues no mutation request and no Slack post and ends through
  \<open>sys.exit()\<close> with exit status 0, the status of a successful run.
\<close>

theorem dry_run_no_mutation:
  assumes "DRY_RUN w"
    and "feed_response w = Some data"
    and "extract_bitbucket_egress_ipv4 data = Inr (before_cidrs, after_cidrs)"
    and "snd (get_sg_ingress_rules w) = Inr current_cidrs"
    and "length after_cidrs \<le> AWS_SG_RULE_LIMIT"
    and "to_add after_cidrs current_cidrs \<noteq> {} \<or> to_remove after_cidrs current_cidrs \<noteq> {}"
  shows "filter is_mutation (fst (main w)) = []
     \<and> filter is_chat_post (fst (main w)) = []
     \<and> snd (main w) = Inl (SystemExit None)
     \<and> exit_status (snd (main w)) = 0"
proof -
  have ne: "after_cidrs \<noteq> current_cidrs"
    using assms(6) by (auto simp: to_add_def to_remove_def)
  show ?thesis
    using assms(1,5,6) ne
    by (auto simp: main_reaches_decide [OF assms(2-4)] report_counts_eq decide_mutations
        decide_posts snd_decide replace_mutations snd_replace)
qed

text \<open>
  Witness for C4: the sample world in dry-run mode.
\<close>

theorem dry_run_no_mutation_witness:
  "DRY_RUN (sample_world\<lparr>DRY_RUN := True\<rparr>)
   \<and> length [''10.0.0.0/23''] \<le> AWS_SG_RULE_LIMIT
   \<and> to_add [''10.0.0.0/23''] [''10.0.0.0/24'', ''10.0.1.0/24''] \<noteq> {}
   \<and> filter is_mutation (fst (main (sample_world\<lparr>DRY_RUN := True\<rparr>))) = []
   \<and> filter is_chat_post (fst (main (sample_world\<lparr>DRY_RUN := True\<rparr>))) = []
   \<and> exit_status (snd (main (sample_world\<lparr>DRY_RUN := True\<rparr>))) = 0"
proof -
  let ?w = "sample_world\<lparr>DRY_RUN := True\<rparr>"
  have r: "DRY_RUN ?w" by simp
  have f: "feed_response ?w = Some sample_feed"
    and d: "describe_response ?w = Some sample_group"
    by (simp_all add: sample_world_def)
  have l: "length [''10.0.0.0/23''] \<le> AWS_SG_RULE_LIMIT"
    by (simp add: AWS_SG_RULE_LIMIT_def)
  have n: "to_add [''10.0.0.0/23''] [''10.0.0.0/24'', ''10.0.1.0/24''] \<noteq> {}
      \<or> to_remove [''10.0.0.0/23''] [''10.0.0.0/24'', ''10.0.1.0/24''] \<noteq> {}"
    by (simp add: sample_diff)
  show ?thesis
    using dry_run_no_mutation [OF r f sample_extract sample_rules [OF d] l n] l
    by (simp add: sample_diff)
qed

text \<open>
  Counterexample to C5 as stated: without a Slack token the notification step ends the
  run with \<open>sys.exit(1)\<close>; the run that would have ended with status 0 ends with 1.
\<close>

theorem missing_token_ends_run:
  "snd (send_slack_alert (sample_world\<lparr>SLACK_BOT_TOKEN := None\<rparr>) (UpdatedSecurityGroup 1))
     = Inl (SystemExit (Some 1))
   \<and> exit_status (snd (main (sample_world\<lparr>SLACK_BOT_TOKEN := None\<rparr>))) = 1
   \<and> exit_status (snd (main sample_world)) = 0"
proof -
  let ?w = "sample_world\<lparr>SLACK_BOT_TOKEN := None\<rparr>"
  have f: "feed_response ?w = Some sample_feed"
    and d: "describe_response ?w = Some sample_group"
    and f': "feed_response sample_world = Some sample_feed"
    and d': "describe_response sample_world = Some sample_group"
    by (simp_all add: sample_world_def)
  have t: "token_missing ?w" "\<not> token_missing sample_world"
    by (simp_all add: token_missing_def sample_world_def)
  have r: "\<not> DRY_RUN ?w" "\<not> revoke_raises ?w" "\<not> authorize_raises ?w"
    "\<not> DRY_RUN sample_world" "\<not> revoke_raises sample_world" "\<not> authorize_raises sample_world"
    by (simp_all add: sample_world_def)
  have "snd (main ?w) = Inl (SystemExit (Some 1))"
    using t r
    by (simp add: main_reaches_decide [OF f sample_extract sample_rules [OF d]] snd_decide
        snd_replace sample_diff AWS_SG_RULE_LIMIT_def)
  moreover have "snd (main sample_world) = Inr ()"
    using t r
    by (simp add: main_reaches_decide [OF f' sample_extract sample_rules [OF d']] snd_decide
        snd_replace sample_diff AWS_SG_RULE_LIMIT_def)
  ultimately show ?thesis
    using t by (simp add: snd_send_slack)
qed

text \<open>
  Claim C5, amended. When the Slack token is set, the notification step returns normally
  for every message and every answer of the post; when the post raises or does not
  answer \<open>ok\<close>, it logs the failure; and the result of the run (hence its exit status)
  does not depend on the answer of the post.
\<close>

theorem post_failure_swallowed:
  assumes "\<not> token_missing w"
  shows "snd (send_slack_alert w message) = Inr ()
     \<and> (chat_response w \<noteq> PostReturns True \<longrightarrow>
          Print LogSlackFailed \<in> set (fst (send_slack_alert w message)))
     \<and> snd (main (w\<lparr>chat_response := r\<rparr>)) = snd (main w)"
proof -
  have "Print LogSlackFailed \<in> set (fst (send_slack_alert w message))"
    if "chat_response w \<noteq> PostReturns True"
    using that assms
    by (cases "chat_response w") (auto simp: send_slack_alert_def io_defs)
  moreover have "snd (main (w\<lparr>chat_response := r\<rparr>)) = snd (main w)"
    by (simp add: snd_main snd_decide split: option.splits sum.splits prod.splits)
  ultimately show ?thesis
    using assms by (simp add: snd_send_slack)
qed

text \<open>
  Witness for C5: the sample world with a post that raises.
\<close>

theorem post_failure_swallowed_witness:
  "\<not> token_missing (sample_world\<lparr>chat_response := PostRaises\<rparr>)
   \<and> snd (send_slack_alert (sample_world\<lparr>chat_response := PostRaises\<rparr>)
            (UpdatedSecurityGroup 1)) = Inr ()
   \<and> Print LogSlackFailed \<in> set (fst (send_slack_alert
        (sample_world\<lparr>chat_response := PostRaises\<rparr>) (UpdatedSecurityGroup 1)))
   \<and> snd (main (sample_world\<lparr>chat_response := PostRaises\<rparr>)) = snd (main sample_world)"
proof -
  let ?w = "sample_world\<lparr>chat_response := PostRaises\<rparr>"
  have t: "\<not> token_missing ?w"
    by (simp add: token_missing_def sample_world_def)
  have c: "chat_response ?w \<noteq> PostReturns True"
    by simp
  have e: "?w\<lparr>chat_response := PostReturns True\<rparr> = sample_world"
    by (simp add: sample_world_def)
  show ?thesis
    using post_failure_swallowed [OF t, of "UpdatedSecurityGroup 1" "PostReturns True"] t c
    by (simp only: e) simp
qed

text \<open>
  Claim C7. If one of the CIDR strings that pass the feed filter does not parse, the
  normalization fails with \<open>ValueError\<close> and gives no list, and the run ends right
  after the fetch with that error and exit status 1: no mutation request, not even the
  read of the security group.
\<close>

theorem malformed_cidr_aborts:
  assumes "feed_response w = Some data"
    and "feed_cidrs (case items data of None \<Rightarrow> [] | Some its \<Rightarrow> its) = Inr cidrs"
    and "c \<in> set cidrs"
    and "ip_network c = None"
  shows "collapse_cidrs cidrs = Inl ValueError
     \<and> extract_bitbucket_egress_ipv4 data = Inl ValueError
     \<and> main w = ([Print LogFetching, FeedGet], Inl ValueError)
     \<and> exit_status (snd (main w)) = 1
     \<and> filter is_mutation (fst (main w)) = []"
proof -
  have "those (map ip_network cidrs) = None"
    using assms(3,4) by (auto simp: those_map_None)
  then have c: "collapse_cidrs cidrs = Inl ValueError"
    by (simp add: collapse_cidrs_def)
  then have e: "extract_bitbucket_egress_ipv4 data = Inl ValueError"
    by (simp add: extract_bitbucket_egress_ipv4_def assms(2))
  show ?thesis
    by (simp add: c e main_stops_at_extract [OF assms(1) e])
qed

text \<open>
  Witness for C7: a feed whose second range, \<open>10.0.0.1/24\<close>, has host bits set.
\<close>

theorem malformed_cidr_aborts_witness:
  "''10.0.0.1/24'' \<in> set [''10.0.0.0/24'', ''10.0.0.1/24'']
   \<and> ip_network ''10.0.0.1/24'' = None
   \<and> collapse_cidrs [''10.0.0.0/24'', ''10.0.0.1/24''] = Inl ValueError
   \<and> main (sample_world\<lparr>feed_response := Some malformed_feed\<rparr>)
       = ([Print LogFetching, FeedGet], Inl ValueError)
   \<and> exit_status (snd (main (sample_world\<lparr>feed_response := Some malformed_feed\<rparr>))) = 1"
proof -
  let ?w = "sample_world\<lparr>feed_response := Some malformed_feed\<rparr>"
  have f: "feed_response ?w = Some malformed_feed"
    by simp
  have m: "''10.0.0.1/24'' \<in> set [''10.0.0.0/24'', ''10.0.0.1/24'']"
    by simp
  show ?thesis
    using malformed_cidr_aborts [OF f malformed_cidrs m host_bits_refused] m host_bits_refused
    by simp
qed

text \<open>
  Claim C9, at the input where the code departs from it: an entry tagged for Bitbucket
  and egress that has no \<open>cidr\<close> field meets the condition of the comprehension
  (\<open>item.get("cidr", "")\<close> has no colon), and \<open>item["cidr"]\<close> then raises \<open>KeyError\<close>.
\<close>

theorem missing_cidr_raises_KeyError:
  "feed_condition \<lparr>cidr = None, product = Some [''bitbucket''], direction = Some [''egress'']\<rparr>
   \<and> extract_bitbucket_egress_ipv4
       \<lparr>items = Some [\<lparr>cidr = None, product = Some [''bitbucket''],
                       direction = Some [''egress'']\<rparr>]\<rparr>
     = Inl (KeyError ''cidr'')"
  by (simp add: extract_bitbucket_egress_ipv4_def feed_condition_def)

text \<open>
  Claim C3, at the input where the code departs from it: the security group lists the
  one desired range in two permissions for port 443. Desired and current hold the same
  CIDRs and the diff is empty, yet the run goes on after "up to date", logs an update and
  posts the success message.
\<close>

theorem doubled_rule_reported_as_update:
  "set [''10.0.0.0/24''] = set [''10.0.0.0/24'', ''10.0.0.0/24'']
   \<and> extract_bitbucket_egress_ipv4 single_feed = Inr ([''10.0.0.0/24''], [''10.0.0.0/24''])
   \<and> snd (get_sg_ingress_rules doubled_world) = Inr [''10.0.0.0/24'', ''10.0.0.0/24'']
   \<and> to_add [''10.0.0.0/24''] [''10.0.0.0/24'', ''10.0.0.0/24''] = {}
   \<and> to_remove [''10.0.0.0/24''] [''10.0.0.0/24'', ''10.0.0.0/24''] = {}
   \<and> fst (main doubled_world) =
       [Print LogFetching, FeedGet, Print (LogTotalBefore 1), Print (LogTotalAfter 1),
        Print LogNoReduction, Print (LogDesired [''10.0.0.0/24'']),
        DescribeSecurityGroups, Print (LogCurrent [''10.0.0.0/24'', ''10.0.0.0/24'']),
        Print LogChecking, Print LogUpToDate, Print (LogUpdated 1),
        ChatPostMessage (UpdatedSecurityGroup 1), Print LogSlackSent]"
proof -
  have f: "feed_response doubled_world = Some single_feed"
    and d: "describe_response doubled_world = Some doubled_group"
    by (simp_all add: doubled_world_def)
  have z: "to_add [''10.0.0.0/24''] [''10.0.0.0/24'', ''10.0.0.0/24''] = {}"
    "to_remove [''10.0.0.0/24''] [''10.0.0.0/24'', ''10.0.0.0/24''] = {}"
    by (simp_all add: to_add_def to_remove_def)
  have "fst (decide doubled_world [''10.0.0.0/24''] [''10.0.0.0/24'', ''10.0.0.0/24'']) =
      [Print LogChecking, Print LogUpToDate, Print (LogUpdated 1),
       ChatPostMessage (UpdatedSecurityGroup 1), Print LogSlackSent]"
    by (simp add: decide_def replace_sg_ingress_rules_def z doubled_world_def
        AWS_SG_RULE_LIMIT_def send_slack_alert_def token_missing_def io_defs)
  then show ?thesis
    by (simp add: main_reaches_decide [OF f doubled_extract doubled_rules [OF d]]
        report_counts_eq z doubled_extract doubled_rules [OF d])
qed

text \<open>
  Claim C6. For every list of CIDR strings that all parse, the collapsed list of any
  permutation of it is the same list. Every string of that list parses again with
  \<open>ip_network\<close>, and the keys (address, prefix length) of the networks so read are in
  ascending order along the list, no key occurring twice.
\<close>

theorem collapse_order_independent:
  assumes "mset cidrs' = mset cidrs" and "\<forall>c \<in> set cidrs. ip_network c \<noteq> None"
  shows "collapse_cidrs cidrs' = collapse_cidrs cidrs
     \<and> (\<exists>out. collapse_cidrs cidrs = Inr out
           \<and> list_all (\<lambda>s. ip_network s \<noteq> None) out
           \<and> sorted (map (\<lambda>s. address_prefix_key (the (ip_network s))) out)
           \<and> distinct (map (\<lambda>s. address_prefix_key (the (ip_network s))) out))"
proof -
  have set_eq: "set cidrs' = set cidrs"
    using assms(1) by (rule mset_eq_setD)
  obtain objs where objs: "those (map ip_network cidrs) = Some objs"
    using assms(2) those_map_None [of ip_network cidrs] by (cases "those (map ip_network cidrs)") auto
  obtain objs' where objs': "those (map ip_network cidrs') = Some objs'"
    using assms(2) set_eq those_map_None [of ip_network cidrs']
    by (cases "those (map ip_network cidrs')") auto
  have v: "\<forall>n \<in> set objs. valid_network n"
    by (rule parsed_valid [OF objs])
  have "set objs' = set objs"
    using those_Some_map [OF objs] those_Some_map [OF objs'] set_eq by simp
  then have m: "mset (collapse_addresses objs') = mset (collapse_addresses objs)"
    by (rule collapse_addresses_cong [OF v])
  let ?nets = "sort_key address_prefix_key (collapse_addresses objs)"
  let ?out = "map str_network ?nets"
  let ?key = "\<lambda>s. address_prefix_key (the (ip_network s))"
  have "sort_key address_prefix_key (collapse_addresses objs') = ?nets"
    using m by (intro sort_key_inj_key_eq inj_address_prefix_key) simp_all
  then have same: "collapse_cidrs cidrs' = collapse_cidrs cidrs"
    by (simp add: collapse_cidrs_def objs objs')
  have out: "collapse_cidrs cidrs = Inr ?out"
    by (simp add: collapse_cidrs_def objs)
  have reparse: "ip_network (str_network n) = Some n" if "n \<in> set ?nets" for n
    using that collapse_addresses_valid [OF v] by (intro ip_network_str_network) simp
  have parses: "list_all (\<lambda>s. ip_network s \<noteq> None) ?out"
   using reparse by (simp add: list_all_iff)
  have keys: "map ?key ?out = map address_prefix_key ?nets"
   using reparse by (simp add: comp_def)
  have "distinct ?nets"
    using distinct_collapse_addresses [OF v] by simp
  then have "distinct (map address_prefix_key ?nets)"
    by (simp add: distinct_map inj_address_prefix_key)
  moreover have "sorted (map address_prefix_key ?nets)"
    by simp
  ultimately have "sorted (map ?key ?out)" and "distinct (map ?key ?out)"
    by (simp_all only: keys)
  with same out parses show ?thesis
    by blast
qed

text \<open>
  Witness for C6: a permutation of three ranges, two of which merge.
\<close>

theorem collapse_order_independent_witness:
  "mset [''10.0.0.0/24'', ''10.0.1.0/24'', ''10.0.4.0/24'']
     = mset [''10.0.1.0/24'', ''10.0.4.0/24'', ''10.0.0.0/24'']
   \<and> collapse_cidrs [''10.0.0.0/24'', ''10.0.1.0/24'', ''10.0.4.0/24'']
     = Inr [''10.0.0.0/23'', ''10.0.4.0/24'']"
proof -
  have p: "mset [''10.0.0.0/24'', ''10.0.1.0/24'', ''10.0.4.0/24'']
      = mset [''10.0.1.0/24'', ''10.0.4.0/24'', ''10.0.0.0/24'']"
    by simp
  have v: "\<forall>c \<in> set [''10.0.1.0/24'', ''10.0.4.0/24'', ''10.0.0.0/24'']. ip_network c \<noteq> None"
    using three_parse by (simp only: list_all_iff)
  from collapse_order_independent [OF p v] p show ?thesis
    by (simp only: collapse_three)
qed

end
